theory Spec2Isabelle
  imports Main "HOL-Library.Word" "HOL-Library.Signed_Division"
begin

section \<open>A shallow embedding of calculator.c\<close>

text \<open>
  The program is a three-stage pipeline over one source line: a tokenizer, a recursive-descent
  parser and a tree-walking evaluator with a fixed stack of 32 integers. Each C function is a
  HOL function of the same name; the globals a function reads and writes are passed in and
  returned.
\<close>

subsection \<open>Statuses\<close>

text \<open>
  Every C function returns \<open>SUCCESS\<close> (0) or \<open>FAILURE\<close> (1), and every \<open>FAILURE\<close> is created
  right after one diagnostic has been printed to stderr: \<open>FAILURE e\<close> carries that diagnostic.
  \<open>ABORT\<close> is not a return value. It marks an execution that reaches behaviour the C standard
  leaves undefined (a read through a null pointer, an array index out of range, the quotient
  \<open>INT_MIN / -1\<close>): the model stops there and every caller hands the \<open>ABORT\<close> on.
\<close>

datatype fault = NullPointer | OutOfRange | DivisionOverflow

datatype 'e status = SUCCESS | FAILURE 'e | ABORT fault

subsection \<open>The C type int\<close>

text \<open>
  \<open>int\<close> is 32 bits wide; \<open>sint\<close> reads a value as two's complement. Addition,
  subtraction and multiplication wrap around, as the compiled code does; \<open>/\<close> truncates
  towards zero and has no result for \<open>INT_MIN / -1\<close>.
\<close>

type_synonym cint = "32 word"

definition INT_MIN :: cint where
  "INT_MIN = word_of_int (- (2 ^ 31))"

definition c_div :: "cint \<Rightarrow> cint \<Rightarrow> cint" where
  "c_div a b = word_of_int (sint a sdiv sint b)"

subsection \<open>The syntax tree\<close>

text \<open>
  \<open>struct ast\<close> is a tag and a union: a node tagged \<open>ast_num\<close> holds \<open>value\<close>, a node with
  any other tag holds \<open>children[0]\<close> and \<open>children[1]\<close>. A value of type \<open>ast\<close> stands for a
  pointer \<open>ast_t *\<close>, so \<open>NULL\<close> is one of its values and a child may be \<open>NULL\<close>.
\<close>

datatype ast_type = ast_add | ast_sub | ast_div | ast_mul

datatype ast = NULL | ast_num cint | ast_op ast_type ast ast

text \<open>The tree invariant of the data model: no absent child anywhere, and the root is present.\<close>

fun well_formed :: "ast \<Rightarrow> bool" where
  "well_formed NULL = False"
| "well_formed (ast_num v) = True"
| "well_formed (ast_op k l r) = (well_formed l \<and> well_formed r)"

subsection \<open>The evaluation stack\<close>

text \<open>
  \<open>int callstack[32]\<close> and \<open>int callstack_top = 32\<close>: the stack grows downwards, the cells
  from \<open>callstack_top\<close> up to 31 hold the pending values and the cells below hold whatever was
  written there before. The macros check no index; an index outside 0..31 is out of range.
\<close>

definition MAX_CALLSTACK_DEPTH :: nat where
  "MAX_CALLSTACK_DEPTH = 32"

record machine =
  callstack :: "nat \<Rightarrow> cint"
  callstack_top :: nat

definition initial_machine :: machine where
  "initial_machine = \<lparr>callstack = (\<lambda>_. 0), callstack_top = MAX_CALLSTACK_DEPTH\<rparr>"

definition callstack_push :: "cint \<Rightarrow> machine \<Rightarrow> machine option" where
  "callstack_push x m =
     (if callstack_top m = 0 \<or> MAX_CALLSTACK_DEPTH < callstack_top m then None
      else Some (m\<lparr>callstack := (callstack m)(callstack_top m - 1 := x),
                   callstack_top := callstack_top m - 1\<rparr>))"

definition callstack_pop :: "machine \<Rightarrow> (cint \<times> machine) option" where
  "callstack_pop m =
     (if MAX_CALLSTACK_DEPTH \<le> callstack_top m then None
      else Some (callstack m (callstack_top m), m\<lparr>callstack_top := callstack_top m + 1\<rparr>))"

definition callstack_is_full :: "machine \<Rightarrow> bool" where
  "callstack_is_full m = (callstack_top m = 0)"

definition callstack_is_empty :: "machine \<Rightarrow> bool" where
  "callstack_is_empty m = (callstack_top m = MAX_CALLSTACK_DEPTH)"

definition callstack_clear :: "machine \<Rightarrow> machine" where
  "callstack_clear m = m\<lparr>callstack_top := MAX_CALLSTACK_DEPTH\<rparr>"

subsection \<open>The evaluator\<close>

datatype runtime_error = DivisionByZero | StackOverflow | StackUnderflow

text \<open>The \<open>switch\<close> of \<open>execution_engine_do_operation\<close>, between the two pops and the push.\<close>

fun operate :: "ast_type \<Rightarrow> cint \<Rightarrow> cint \<Rightarrow> runtime_error status \<times> cint" where
  "operate ast_add left right = (SUCCESS, left + right)"
| "operate ast_sub left right = (SUCCESS, left - right)"
| "operate ast_mul left right = (SUCCESS, left * right)"
| "operate ast_div left right =
     (if right = 0 then (FAILURE DivisionByZero, left)
      else if left = INT_MIN \<and> right = - 1 then (ABORT DivisionOverflow, left)
      else (SUCCESS, c_div left right))"

definition execution_engine_do_operation :: "ast_type \<Rightarrow> machine \<Rightarrow> runtime_error status \<times> machine" where
  "execution_engine_do_operation operator m =
     (case callstack_pop m of
        None \<Rightarrow> (ABORT OutOfRange, m)
      | Some (right_operand, m1) \<Rightarrow>
          (case callstack_pop m1 of
             None \<Rightarrow> (ABORT OutOfRange, m1)
           | Some (left_operand, m2) \<Rightarrow>
               (case operate operator left_operand right_operand of
                  (SUCCESS, v) \<Rightarrow>
                    (case callstack_push v m2 of
                       None \<Rightarrow> (ABORT OutOfRange, m2)
                     | Some m3 \<Rightarrow> (SUCCESS, m3))
                | (s, v) \<Rightarrow> (s, m2))))"

fun execution_engine_process_ast_node :: "ast \<Rightarrow> machine \<Rightarrow> runtime_error status \<times> machine" where
  "execution_engine_process_ast_node NULL m = (SUCCESS, m)"
| "execution_engine_process_ast_node (ast_num v) m =
     (if callstack_is_full m then (FAILURE StackOverflow, m)
      else (case callstack_push v m of
              None \<Rightarrow> (ABORT OutOfRange, m)
            | Some m1 \<Rightarrow> (SUCCESS, m1)))"
| "execution_engine_process_ast_node (ast_op k l r) m =
     (case execution_engine_process_ast_node l m of
        (SUCCESS, m1) \<Rightarrow>
          (case execution_engine_process_ast_node r m1 of
             (SUCCESS, m2) \<Rightarrow> execution_engine_do_operation k m2
           | (s, m2) \<Rightarrow> (s, m2))
      | (s, m1) \<Rightarrow> (s, m1))"

text \<open>
  \<open>execution_engine\<close> returns its status, what it printed to stdout (the result, when there
  is one) and the stack it leaves. \<open>execution_engine_epilogue\<close> is its code after the
  traversal (the lines from \<open>if(status == SUCCESS)\<close> to the \<open>return\<close>), given the status of
  the traversal and the stack the traversal left.
\<close>

definition execution_engine_epilogue ::
  "runtime_error status \<Rightarrow> machine \<Rightarrow> runtime_error status \<times> cint option \<times> machine" where
  "execution_engine_epilogue status m1 =
     (case status of
        SUCCESS \<Rightarrow>
          (if callstack_is_empty m1 then (FAILURE StackUnderflow, None, m1)
           else (case callstack_pop m1 of
                   None \<Rightarrow> (ABORT OutOfRange, None, m1)
                 | Some (v, m2) \<Rightarrow> (SUCCESS, Some v, callstack_clear m2)))
      | FAILURE e \<Rightarrow> (FAILURE e, None, callstack_clear m1)
      | ABORT f \<Rightarrow> (ABORT f, None, m1))"

definition execution_engine :: "ast \<Rightarrow> machine \<Rightarrow> runtime_error status \<times> cint option \<times> machine" where
  "execution_engine tree m =
     (if tree \<noteq> NULL then
        (case execution_engine_process_ast_node tree m of
           (status, m1) \<Rightarrow> execution_engine_epilogue status m1)
      else (SUCCESS, None, callstack_clear m))"

subsection \<open>The source line and the tokens\<close>

text \<open>
  \<open>source_file_line\<close> is the array the line reader fills (1024 bytes in the program) and
  \<open>source_file_line_occupied_size\<close> the number of bytes of the current line in it. The model
  takes the array as the list of its bytes, whatever its length; an index from that length
  on is out of range. Bytes behind the occupied part are what an earlier line left there.
\<close>

record source_file =
  source_file_line :: string
  source_file_line_occupied_size :: nat

datatype token_type =
    token_number
  | token_plus
  | token_minus
  | token_times
  | token_divide
  | token_bracket_open
  | token_bracket_close
  | token_end_of_expression
  | token_end_of_file

text \<open>
  A token is its type and its lexeme; \<open>token_new\<close> zeroes the node, so the lexeme of a token
  that is not a number is the null pointer (\<open>None\<close>). The \<open>next\<close> links make a token list a
  HOL list.
\<close>

record token =
  type :: token_type
  lexeme :: "string option"

definition token_new :: token where
  "token_new = \<lparr>type = token_number, lexeme = None\<rparr>"

text \<open>
  The two shapes of token the tokenizer builds: a number with its lexeme, and any other
  token, which has none.
\<close>

definition number_token :: "string \<Rightarrow> token" where
  "number_token s = token_new\<lparr>lexeme := Some s, type := token_number\<rparr>"

definition operator_token :: "token_type \<Rightarrow> token" where
  "operator_token k = token_new\<lparr>type := k\<rparr>"

definition isspace :: "char \<Rightarrow> bool" where
  "isspace c = (c \<in> set [CHR 0x20, CHR 0x09, CHR 0x0A, CHR 0x0B, CHR 0x0C, CHR 0x0D])"

definition isdigit :: "char \<Rightarrow> bool" where
  "isdigit c = (c \<in> set ''0123456789'')"

text \<open>The cases of the \<open>switch\<close> ahead of \<open>default\<close>; \<open>EOF\<close> is -1, the byte 0xFF as a \<open>char\<close>.\<close>

definition switch_case :: "char \<Rightarrow> token_type option" where
  "switch_case c =
     (if c = CHR 0xFF then Some token_end_of_file
      else if c = CHR ''+'' then Some token_plus
      else if c = CHR ''-'' then Some token_minus
      else if c = CHR ''*'' then Some token_times
      else if c = CHR ''/'' then Some token_divide
      else if c = CHR ''('' then Some token_bracket_open
      else if c = CHR '')'' then Some token_bracket_close
      else if c = CHR 0x0A then Some token_end_of_expression
      else None)"

text \<open>
  \<open>while(isdigit(source_file_line[++i])) lexeme_length++;\<close> returns the new \<open>i\<close> and
  \<open>lexeme_length\<close>, or \<open>None\<close> when the scan runs off the array.
\<close>

function digit_loop :: "string \<Rightarrow> nat \<Rightarrow> nat \<Rightarrow> (nat \<times> nat) option" where
  "digit_loop line i lexeme_length =
     (if Suc i < length line then
        (if isdigit (line ! Suc i) then digit_loop line (Suc i) (Suc lexeme_length)
         else Some (Suc i, lexeme_length))
      else None)"
  by pat_completeness auto
termination
  by (relation "measure (\<lambda>(line, i, n). length line - i)") auto

declare digit_loop.simps [simp del]

lemma digit_loop_advances:
  "digit_loop line i n = Some (i', n') \<Longrightarrow> i < i' \<and> i' < length line"
proof (induction line i n rule: digit_loop.induct)
  case (1 line i n)
  from "1.prems" show ?case
    by (subst (asm) digit_loop.simps) (auto split: if_splits dest: "1.IH")
qed

text \<open>
  \<open>strndup(p, n)\<close> on the bytes from \<open>p\<close> to the end of the array: at most \<open>n\<close> bytes, up to
  the first NUL; \<open>None\<close> when it has to read past the end of the array.
\<close>

fun strndup :: "string \<Rightarrow> nat \<Rightarrow> string option" where
  "strndup s 0 = Some []"
| "strndup [] (Suc n) = None"
| "strndup (c # s) (Suc n) =
     (if c = CHR 0x00 then Some [] else map_option ((#) c) (strndup s n))"

text \<open>What the \<open>default\<close> case prints to stderr for the byte at \<open>i\<close> when it is no digit.\<close>

definition snippet_start :: "nat \<Rightarrow> nat" where
  "snippet_start i = (if i > 5 then i - 5 else 0)"

definition snippet_end :: "nat \<Rightarrow> nat \<Rightarrow> nat" where
  "snippet_end occupied_size i = (if i + 5 < occupied_size - 1 then i + 5 else occupied_size - 1)"

definition unexpected_character :: "string \<Rightarrow> nat \<Rightarrow> nat \<Rightarrow> string" where
  "unexpected_character line occupied_size i =
     ''Unexpected character.'' @ [CHR 0x0A] @
     [CHR 0x09] @
     map (\<lambda>j. line ! j) [snippet_start i ..< i] @
     [CHR 0x1B] @ ''[1;31m'' @ [line ! i] @ [CHR 0x1B] @ ''[0m'' @
     map (\<lambda>j. line ! j) [i + 1 ..< snippet_end occupied_size i] @
     [CHR 0x0A] @
     [CHR 0x09] @
     map (\<lambda>j. if j \<noteq> i then CHR ''~'' else CHR ''^'') [snippet_start i ..< Suc (snippet_end occupied_size i)] @
     [CHR 0x0A]"

text \<open>
  The \<open>for\<close> loop of \<open>tokenize_source_line_and_add_to_list\<close>, from index \<open>i\<close> on.
  \<open>lexeme_length\<close> is set to 1 once, ahead of the loop, and only ever incremented.
\<close>

function tokenize_loop ::
  "source_file \<Rightarrow> nat \<Rightarrow> nat \<Rightarrow> token list \<Rightarrow> string status \<times> token list" where
  "tokenize_loop src i lexeme_length list =
     (if i < source_file_line_occupied_size src then
        (if length (source_file_line src) \<le> i then (ABORT OutOfRange, list)
         else
           let current_character = source_file_line src ! i in
           if isspace current_character \<and> current_character \<noteq> CHR 0x0A then
             tokenize_loop src (Suc i) lexeme_length list
           else
             (case switch_case current_character of
                Some current_token_type \<Rightarrow>
                  tokenize_loop src (Suc i) lexeme_length
                    (list @ [token_new\<lparr>type := current_token_type\<rparr>])
              | None \<Rightarrow>
                  if \<not> isdigit current_character then
                    (if i + 1 < snippet_end (source_file_line_occupied_size src) i
                        \<and> length (source_file_line src) < snippet_end (source_file_line_occupied_size src) i
                     then (ABORT OutOfRange, list)
                     else (FAILURE (unexpected_character (source_file_line src)
                                      (source_file_line_occupied_size src) i), list))
                  else
                    (case digit_loop (source_file_line src) i lexeme_length of
                       None \<Rightarrow> (ABORT OutOfRange, list)
                     | Some (i', lexeme_length') \<Rightarrow>
                         (case strndup (drop i (source_file_line src)) lexeme_length' of
                            None \<Rightarrow> (ABORT OutOfRange, list)
                          | Some s \<Rightarrow>
                              tokenize_loop src i' lexeme_length'
                                (list @ [token_new\<lparr>lexeme := Some s, type := token_number\<rparr>])))))
      else (SUCCESS, list))"
  by pat_completeness auto
termination
  by (relation "measure (\<lambda>(src, i, n, list). source_file_line_occupied_size src - i)")
     (auto dest: digit_loop_advances)

declare tokenize_loop.simps [simp del]

definition tokenize_source_line_and_add_to_list ::
  "token list \<Rightarrow> source_file \<Rightarrow> string status \<times> token list" where
  "tokenize_source_line_and_add_to_list list src = tokenize_loop src 0 1 list"


subsection \<open>String to integer\<close>

text \<open>
  \<open>str_to_int(str)\<close> is \<open>strtol(str, 0, 10)\<close>, stored into an \<open>int\<close>. \<open>strtol\<close> is the C
  library's: it skips white space, takes an optional sign, reads decimal digits up to the
  first byte that is none, and clamps to the range of \<open>long\<close> (64 bits). The store into
  \<open>value\<close> keeps the low 32 bits.
\<close>

definition digit_value :: "char \<Rightarrow> int" where
  "digit_value c = int (of_char c) - 48"

definition decimal :: "string \<Rightarrow> int" where
  "decimal ds = foldl (\<lambda>acc c. 10 * acc + digit_value c) 0 ds"

definition LONG_MAX :: int where
  "LONG_MAX = 2 ^ 63 - 1"

definition LONG_MIN :: int where
  "LONG_MIN = - (2 ^ 63)"

definition strtol :: "string \<Rightarrow> int" where
  "strtol str =
     (let s = dropWhile isspace str in
      case s of
        [] \<Rightarrow> 0
      | c # rest \<Rightarrow>
          if c = CHR ''-'' then max LONG_MIN (- decimal (takeWhile isdigit rest))
          else if c = CHR ''+'' then min LONG_MAX (decimal (takeWhile isdigit rest))
          else min LONG_MAX (decimal (takeWhile isdigit s)))"

definition str_to_int :: "string \<Rightarrow> cint" where
  "str_to_int str = word_of_int (strtol str)"

subsection \<open>The parser\<close>

text \<open>
  The parser's globals: \<open>parser_next_token\<close> points into the token list (the list from that
  token on, \<open>[]\<close> for the null pointer) and \<open>parser_active_token\<close> at the last token handed
  out (\<open>None\<close> for the null pointer, its value at program start). \<open>parser_token_stream\<close> is
  written once and never read, and is left out.
\<close>

record parser =
  parser_next_token :: "token list"
  parser_active_token :: "token option"

definition initial_parser :: parser where
  "initial_parser = \<lparr>parser_next_token = [], parser_active_token = None\<rparr>"

text \<open>The first byte of \<open>get_token_lexeme(token)\<close>; a lexeme of length 0 starts with its NUL.\<close>

definition get_token_lexeme :: "token \<Rightarrow> string option" where
  "get_token_lexeme token =
     (case type token of
        token_number \<Rightarrow> lexeme token
      | token_plus \<Rightarrow> Some ''+''
      | token_minus \<Rightarrow> Some ''-''
      | token_times \<Rightarrow> Some ''*''
      | token_divide \<Rightarrow> Some ''/''
      | token_bracket_close \<Rightarrow> Some '')''
      | token_bracket_open \<Rightarrow> Some ''(''
      | token_end_of_file \<Rightarrow> Some ''-1''
      | token_end_of_expression \<Rightarrow> Some [CHR 0x5C, CHR ''n''])"

definition first_byte :: "string option \<Rightarrow> char option" where
  "first_byte s = (case s of None \<Rightarrow> None | Some [] \<Rightarrow> Some (CHR 0x00) | Some (c # _) \<Rightarrow> Some c)"

definition parser_register_token_stream :: "token list \<Rightarrow> parser \<Rightarrow> parser" where
  "parser_register_token_stream stream p = p\<lparr>parser_next_token := stream\<rparr>"

definition parser_get_next_token :: "parser \<Rightarrow> parser" where
  "parser_get_next_token p =
     (case parser_next_token p of
        [] \<Rightarrow> p
      | t # ts \<Rightarrow> p\<lparr>parser_active_token := Some t, parser_next_token := ts\<rparr>)"

datatype syntax_error =
    ExpectedEndOfExpression char
  | ExpectedClosingBracket
  | ExpectedIntegerOrBracket char

text \<open>
  The productions call each other through the bracket rule, and at the end of a token list
  \<open>parser_get_next_token\<close> hands out the same token again, so a list that ends in \<open>(\<close> makes
  the C recursion run on without end. The model takes fuel, one unit per call and per loop
  round; \<open>None\<close> says the fuel ran out. A result is the status, the tree slot \<open>*tree\<close> and
  the globals.

  The five functions are one recursion, \<open>descend\<close>, over the productions of the grammar in
  the source's comment: \<open>add_expression\<close> is the body of \<open>parser_parse_add_expression\<close> and
  \<open>add_expression_p\<close> its \<open>while\<close> loop, entered with the loop's \<open>r\<close> (only the loops read
  that argument); the fresh node's \<open>children[1]\<close> starts as \<open>NULL\<close>.
\<close>

type_synonym parse_result = "(syntax_error status \<times> ast \<times> parser) option"

datatype production =
    add_expression | add_expression_p
  | sub_expression | sub_expression_p
  | mul_expression | mul_expression_p
  | div_expression | div_expression_p
  | unit_expression

fun descend :: "production \<Rightarrow> nat \<Rightarrow> syntax_error status \<Rightarrow> ast \<Rightarrow> parser \<Rightarrow> parse_result" where
  "descend production 0 r tree p = None"
| "descend add_expression (Suc n) r tree p =
     (case descend sub_expression n r tree p of
        None \<Rightarrow> None
      | Some (r1, tree1, p1) \<Rightarrow> descend add_expression_p n r1 tree1 p1)"
| "descend add_expression_p (Suc n) r tree p =
     (case parser_active_token p of
        None \<Rightarrow> Some (ABORT NullPointer, tree, p)
      | Some t \<Rightarrow>
          if type t = token_plus \<and> r = SUCCESS then
            (case descend sub_expression n r NULL (parser_get_next_token p) of
               None \<Rightarrow> None
             | Some (r1, child, p1) \<Rightarrow>
                 (case r1 of
                    SUCCESS \<Rightarrow> descend add_expression_p n r (ast_op ast_add tree child) p1
                  | FAILURE e \<Rightarrow> Some (FAILURE e, tree, p1)
                  | ABORT f \<Rightarrow> Some (ABORT f, tree, p1)))
          else Some (r, tree, p))"
| "descend sub_expression (Suc n) r tree p =
     (case descend mul_expression n r tree p of
        None \<Rightarrow> None
      | Some (r1, tree1, p1) \<Rightarrow> descend sub_expression_p n r1 tree1 p1)"
| "descend sub_expression_p (Suc n) r tree p =
     (case parser_active_token p of
        None \<Rightarrow> Some (ABORT NullPointer, tree, p)
      | Some t \<Rightarrow>
          if type t = token_minus \<and> r = SUCCESS then
            (case descend mul_expression n r NULL (parser_get_next_token p) of
               None \<Rightarrow> None
             | Some (r1, child, p1) \<Rightarrow>
                 (case r1 of
                    SUCCESS \<Rightarrow> descend sub_expression_p n r (ast_op ast_sub tree child) p1
                  | FAILURE e \<Rightarrow> Some (FAILURE e, tree, p1)
                  | ABORT f \<Rightarrow> Some (ABORT f, tree, p1)))
          else Some (r, tree, p))"
| "descend mul_expression (Suc n) r tree p =
     (case descend div_expression n r tree p of
        None \<Rightarrow> None
      | Some (r1, tree1, p1) \<Rightarrow> descend mul_expression_p n r1 tree1 p1)"
| "descend mul_expression_p (Suc n) r tree p =
     (case parser_active_token p of
        None \<Rightarrow> Some (ABORT NullPointer, tree, p)
      | Some t \<Rightarrow>
          if type t = token_times \<and> r = SUCCESS then
            (case descend div_expression n r NULL (parser_get_next_token p) of
               None \<Rightarrow> None
             | Some (r1, child, p1) \<Rightarrow>
                 (case r1 of
                    SUCCESS \<Rightarrow> descend mul_expression_p n r (ast_op ast_mul tree child) p1
                  | FAILURE e \<Rightarrow> Some (FAILURE e, tree, p1)
                  | ABORT f \<Rightarrow> Some (ABORT f, tree, p1)))
          else Some (r, tree, p))"
| "descend div_expression (Suc n) r tree p =
     (case descend unit_expression n r tree p of
        None \<Rightarrow> None
      | Some (r1, tree1, p1) \<Rightarrow> descend div_expression_p n r1 tree1 p1)"
| "descend div_expression_p (Suc n) r tree p =
     (case parser_active_token p of
        None \<Rightarrow> Some (ABORT NullPointer, tree, p)
      | Some t \<Rightarrow>
          if type t = token_divide \<and> r = SUCCESS then
            (case descend unit_expression n r NULL (parser_get_next_token p) of
               None \<Rightarrow> None
             | Some (r1, child, p1) \<Rightarrow>
                 (case r1 of
                    SUCCESS \<Rightarrow> descend div_expression_p n r (ast_op ast_div tree child) p1
                  | FAILURE e \<Rightarrow> Some (FAILURE e, tree, p1)
                  | ABORT f \<Rightarrow> Some (ABORT f, tree, p1)))
          else Some (r, tree, p))"
| "descend unit_expression (Suc n) r tree p =
     (case parser_active_token p of
        None \<Rightarrow> Some (ABORT NullPointer, tree, p)
      | Some t \<Rightarrow>
          if type t = token_bracket_open then
            (case descend add_expression n SUCCESS tree (parser_get_next_token p) of
               None \<Rightarrow> None
             | Some (r1, tree1, p1) \<Rightarrow>
                 (case r1 of
                    SUCCESS \<Rightarrow>
                      (case parser_active_token p1 of
                         None \<Rightarrow> Some (ABORT NullPointer, tree1, p1)
                       | Some t1 \<Rightarrow>
                           if type t1 \<noteq> token_bracket_close
                           then Some (FAILURE ExpectedClosingBracket, tree1, p1)
                           else Some (SUCCESS, tree1, parser_get_next_token p1))
                  | FAILURE e \<Rightarrow> Some (FAILURE e, tree1, p1)
                  | ABORT f \<Rightarrow> Some (ABORT f, tree1, p1)))
          else if type t = token_number then
            (case lexeme t of
               None \<Rightarrow> Some (ABORT NullPointer, tree, p)
             | Some s \<Rightarrow> Some (SUCCESS, ast_num (str_to_int s), parser_get_next_token p))
          else
            (case first_byte (get_token_lexeme t) of
               None \<Rightarrow> Some (ABORT NullPointer, tree, p)
             | Some c \<Rightarrow> Some (FAILURE (ExpectedIntegerOrBracket c), tree, p)))"

definition parser_parse_add_expression :: "nat \<Rightarrow> ast \<Rightarrow> parser \<Rightarrow> parse_result" where
  "parser_parse_add_expression n tree p = descend add_expression n SUCCESS tree p"

definition parser_parse_sub_expression :: "nat \<Rightarrow> ast \<Rightarrow> parser \<Rightarrow> parse_result" where
  "parser_parse_sub_expression n tree p = descend sub_expression n SUCCESS tree p"

definition parser_parse_mul_expression :: "nat \<Rightarrow> ast \<Rightarrow> parser \<Rightarrow> parse_result" where
  "parser_parse_mul_expression n tree p = descend mul_expression n SUCCESS tree p"

definition parser_parse_div_expression :: "nat \<Rightarrow> ast \<Rightarrow> parser \<Rightarrow> parse_result" where
  "parser_parse_div_expression n tree p = descend div_expression n SUCCESS tree p"

definition parser_parse_unit_expression :: "nat \<Rightarrow> ast \<Rightarrow> parser \<Rightarrow> parse_result" where
  "parser_parse_unit_expression n tree p = descend unit_expression n SUCCESS tree p"

definition parser_parse_expression :: "nat \<Rightarrow> ast \<Rightarrow> parser \<Rightarrow> parse_result" where
  "parser_parse_expression n tree p =
     (case parser_parse_add_expression n tree p of
        None \<Rightarrow> None
      | Some (SUCCESS, tree1, p1) \<Rightarrow>
          (case parser_active_token p1 of
             None \<Rightarrow> Some (ABORT NullPointer, tree1, p1)
           | Some t \<Rightarrow>
               if type t \<noteq> token_end_of_expression \<and> type t \<noteq> token_end_of_file then
                 (case first_byte (get_token_lexeme t) of
                    None \<Rightarrow> Some (ABORT NullPointer, tree1, p1)
                  | Some c \<Rightarrow> Some (FAILURE (ExpectedEndOfExpression c), tree1, parser_get_next_token p1))
               else Some (SUCCESS, tree1, parser_get_next_token p1))
      | Some (FAILURE e, tree1, p1) \<Rightarrow> Some (FAILURE e, tree1, parser_get_next_token p1)
      | Some (ABORT f, tree1, p1) \<Rightarrow> Some (ABORT f, tree1, p1))"

definition parse_token_stream_into_ast :: "nat \<Rightarrow> token list \<Rightarrow> ast \<Rightarrow> parser \<Rightarrow> parse_result" where
  "parse_token_stream_into_ast n stream tree p =
     (let p1 = parser_get_next_token (parser_register_token_stream stream p) in
      case parser_active_token p1 of
        None \<Rightarrow> Some (ABORT NullPointer, tree, p1)
      | Some t \<Rightarrow>
          if type t \<noteq> token_end_of_file then parser_parse_expression n tree p1
          else Some (SUCCESS, tree, p1))"

subsection \<open>One round of the loop of main\<close>

text \<open>
  The body of the \<open>while\<close> loop of \<open>main\<close> after \<open>read_line\<close> has filled the line: a fresh
  token list, the tokenizer, the parser on a tree slot that starts as \<open>NULL\<close>, the evaluator
  when the parse succeeded. The result is the status of the stage that stopped the round (or
  of the evaluator), what was printed to stdout, and the globals.
\<close>

datatype diagnostic =
    LexError string
  | SyntaxError syntax_error
  | RuntimeError runtime_error

definition main_loop_body ::
  "nat \<Rightarrow> source_file \<Rightarrow> parser \<Rightarrow> machine \<Rightarrow> (diagnostic status \<times> cint option \<times> parser \<times> machine) option" where
  "main_loop_body n src p m =
     (case tokenize_source_line_and_add_to_list [] src of
        (FAILURE text, stream) \<Rightarrow> Some (FAILURE (LexError text), None, p, m)
      | (ABORT f, stream) \<Rightarrow> Some (ABORT f, None, p, m)
      | (SUCCESS, stream) \<Rightarrow>
          (case parse_token_stream_into_ast n stream NULL p of
             None \<Rightarrow> None
           | Some (FAILURE e, tree, p1) \<Rightarrow> Some (FAILURE (SyntaxError e), None, p1, m)
           | Some (ABORT f, tree, p1) \<Rightarrow> Some (ABORT f, None, p1, m)
           | Some (SUCCESS, tree, p1) \<Rightarrow>
               (case execution_engine tree m of
                  (SUCCESS, out, m1) \<Rightarrow> Some (SUCCESS, out, p1, m1)
                | (FAILURE e, out, m1) \<Rightarrow> Some (FAILURE (RuntimeError e), out, p1, m1)
                | (ABORT f, out, m1) \<Rightarrow> Some (ABORT f, out, p1, m1))))"


text \<open>
  The array as the program's first \<open>read_line\<close> leaves it for the line \<open>s\<close> (its newline
  included): static storage starts zeroed, so the bytes behind the line are NUL.
\<close>

definition MAX_LINE_SIZE :: nat where
  "MAX_LINE_SIZE = 1024"

definition line_read :: "string \<Rightarrow> source_file" where
  "line_read s =
     \<lparr>source_file_line = s @ replicate (MAX_LINE_SIZE - length s) (CHR 0x00),
      source_file_line_occupied_size = length s\<rparr>"

text \<open>The status and the output of the first round of the loop, on the line \<open>s\<close>.\<close>

definition first_round :: "nat \<Rightarrow> string \<Rightarrow> (diagnostic status \<times> cint option) option" where
  "first_round n s =
     map_option (\<lambda>(r, out, p, m). (r, out))
       (main_loop_body n (line_read s) initial_parser initial_machine)"

section \<open>Reference notions\<close>

text \<open>
  These follow the specification's words, not the code, and are what the code is compared
  with.

  The traversal on a stack without a bound: \<open>ideal_value\<close> is the value of a tree, or the
  status that stops the traversal at its first division that has no result;
  \<open>pending_peak t d\<close> is the largest number of operand values pending at once while the
  depth-first post-order traversal of \<open>t\<close> runs, entered with \<open>d\<close> values pending, up to
  the point where it ends or stops.
\<close>

fun ideal_value :: "ast \<Rightarrow> runtime_error status + cint" where
  "ideal_value NULL = Inl (ABORT NullPointer)"
| "ideal_value (ast_num v) = Inr v"
| "ideal_value (ast_op k l r) =
     (case ideal_value l of
        Inl s \<Rightarrow> Inl s
      | Inr a \<Rightarrow>
          (case ideal_value r of
             Inl s \<Rightarrow> Inl s
           | Inr b \<Rightarrow> (case operate k a b of (SUCCESS, v) \<Rightarrow> Inr v | (s, v) \<Rightarrow> Inl s)))"

fun pending_peak :: "ast \<Rightarrow> nat \<Rightarrow> nat" where
  "pending_peak NULL d = d"
| "pending_peak (ast_num v) d = Suc d"
| "pending_peak (ast_op k l r) d =
     (case ideal_value l of
        Inl s \<Rightarrow> pending_peak l d
      | Inr a \<Rightarrow> max (pending_peak l d) (pending_peak r (Suc d)))"

text \<open>
  \<open>operands_needed t d\<close> is what the shape of the tree alone asks for: the largest number
  of operand values pending at once when every node of \<open>t\<close> is visited, entered with \<open>d\<close>
  values pending.
\<close>

fun operands_needed :: "ast \<Rightarrow> nat \<Rightarrow> nat" where
  "operands_needed NULL d = d"
| "operands_needed (ast_num v) d = Suc d"
| "operands_needed (ast_op k l r) d = max (operands_needed l d) (operands_needed r (Suc d))"

text \<open>
  \<open>q\<close> is the quotient of \<open>a\<close> by \<open>b\<close> truncated towards zero: its magnitude is the whole
  number of times \<open>\<bar>b\<bar>\<close> goes into \<open>\<bar>a\<bar>\<close>, and its sign that of the exact quotient.
\<close>

definition truncated_quotient :: "int \<Rightarrow> int \<Rightarrow> int \<Rightarrow> bool" where
  "truncated_quotient a b q =
     (\<bar>q\<bar> * \<bar>b\<bar> \<le> \<bar>a\<bar> \<and> \<bar>a\<bar> < (\<bar>q\<bar> + 1) * \<bar>b\<bar> \<and> (q = 0 \<or> sgn q = sgn a * sgn b))"

text \<open>Two stacks with the same pending values: the same top, the same cells from the top up.\<close>

definition same_pending :: "machine \<Rightarrow> machine \<Rightarrow> bool" where
  "same_pending m m' =
     (callstack_top m = callstack_top m' \<and>
      (\<forall>i. callstack_top m \<le> i \<and> i < MAX_CALLSTACK_DEPTH \<longrightarrow> callstack m i = callstack m' i))"

text \<open>
  The tree of \<open>1 + (1 + (... + 1))\<close> with \<open>n\<close> additions: its traversal has \<open>n + 1\<close> operands
  pending when it reaches the innermost one.
\<close>

fun nested_sum :: "nat \<Rightarrow> ast" where
  "nested_sum 0 = ast_num 1"
| "nested_sum (Suc n) = ast_op ast_add (ast_num 1) (nested_sum n)"

text \<open>
  An expression as it is written: numbers by their lexemes, and the four operators.
  \<open>ast_of\<close> is the tree it stands for. \<open>tokens_of L e\<close> writes \<open>e\<close> as the tokens of a line,
  in a place where the grammar expects the production of level \<open>L\<close> (0 for
  \<open>add_expression\<close>, 1 for \<open>sub_expression\<close>, 2 for \<open>mul_expression\<close>, 3 for
  \<open>div_expression\<close>, 4 for \<open>unit_expression\<close>): an operator of a lower level than the place
  asks for is put in brackets, the left operand of an operator stands at the operator's
  own level and the right operand one level above it.
\<close>

datatype expression = Number string | Binary ast_type expression expression

fun ast_of :: "expression \<Rightarrow> ast" where
  "ast_of (Number s) = ast_num (str_to_int s)"
| "ast_of (Binary k l r) = ast_op k (ast_of l) (ast_of r)"

fun level :: "ast_type \<Rightarrow> nat" where
  "level ast_add = 0"
| "level ast_sub = 1"
| "level ast_mul = 2"
| "level ast_div = 3"

fun operator_of :: "ast_type \<Rightarrow> token_type" where
  "operator_of ast_add = token_plus"
| "operator_of ast_sub = token_minus"
| "operator_of ast_mul = token_times"
| "operator_of ast_div = token_divide"

fun tokens_of :: "nat \<Rightarrow> expression \<Rightarrow> token list" where
  "tokens_of L (Number s) = [number_token s]"
| "tokens_of L (Binary k l r) =
     (if level k < L
      then [operator_token token_bracket_open] @
           tokens_of (level k) l @ [operator_token (operator_of k)] @ tokens_of (Suc (level k)) r @
           [operator_token token_bracket_close]
      else tokens_of (level k) l @ [operator_token (operator_of k)] @ tokens_of (Suc (level k)) r)"

text \<open>
  Notions for the proofs about the parser: the production and the loop of a level, the
  level of an operator token, the parser's globals when the tokens \<open>ts\<close> lie ahead,
  \<open>returns\<close> for a call of \<open>descend\<close> that returns with some fuel, \<open>quiet L x\<close> for a
  token that is no operator of a level above \<open>L\<close>, and \<open>continue\<close> for what the loop of a
  level goes on to return.
\<close>

fun production_at :: "nat \<Rightarrow> production" where
  "production_at 0 = add_expression"
| "production_at (Suc 0) = sub_expression"
| "production_at (Suc (Suc 0)) = mul_expression"
| "production_at (Suc (Suc (Suc 0))) = div_expression"
| "production_at (Suc (Suc (Suc (Suc n)))) = unit_expression"

fun loop_at :: "nat \<Rightarrow> production" where
  "loop_at 0 = add_expression_p"
| "loop_at (Suc 0) = sub_expression_p"
| "loop_at (Suc (Suc 0)) = mul_expression_p"
| "loop_at (Suc (Suc (Suc n))) = div_expression_p"

fun token_level :: "token_type \<Rightarrow> nat option" where
  "token_level token_plus = Some 0"
| "token_level token_minus = Some 1"
| "token_level token_times = Some 2"
| "token_level token_divide = Some 3"
| "token_level k = None"

definition cursor :: "token list \<Rightarrow> parser" where
  "cursor ts = \<lparr>parser_next_token = tl ts, parser_active_token = Some (hd ts)\<rparr>"

definition returns ::
  "production \<Rightarrow> syntax_error status \<Rightarrow> ast \<Rightarrow> parser \<Rightarrow> syntax_error status \<times> ast \<times> parser \<Rightarrow> bool" where
  "returns pr r t p res = (\<exists>n. descend pr n r t p = Some res)"

definition quiet :: "nat \<Rightarrow> token \<Rightarrow> bool" where
  "quiet L x = (case token_level (type x) of None \<Rightarrow> True | Some q \<Rightarrow> q \<le> L)"

definition continue :: "nat \<Rightarrow> ast \<Rightarrow> parser \<Rightarrow> syntax_error status \<times> ast \<times> parser \<Rightarrow> bool" where
  "continue L t p res = (if L < 4 then returns (loop_at L) SUCCESS t p res else res = (SUCCESS, t, p))"

text \<open>A number token whose lexeme starts with a digit; any other token passes.\<close>

definition number_lexeme_ok :: "token \<Rightarrow> bool" where
  "number_lexeme_ok t =
     (type t = token_number \<longrightarrow> (case lexeme t of Some (c # s) \<Rightarrow> isdigit c | _ \<Rightarrow> False))"

section \<open>Properties of the evaluator\<close>

text \<open>\<open>execution_engine\<close> in one piece, as the source has it.\<close>

lemma execution_engine_unfold:
  "execution_engine tree m =
     (if tree \<noteq> NULL then
        (case execution_engine_process_ast_node tree m of
           (SUCCESS, m1) \<Rightarrow>
             (if callstack_is_empty m1 then (FAILURE StackUnderflow, None, m1)
              else (case callstack_pop m1 of
                      None \<Rightarrow> (ABORT OutOfRange, None, m1)
                    | Some (v, m2) \<Rightarrow> (SUCCESS, Some v, callstack_clear m2)))
         | (FAILURE e, m1) \<Rightarrow> (FAILURE e, None, callstack_clear m1)
         | (ABORT f, m1) \<Rightarrow> (ABORT f, None, m1))
      else (SUCCESS, None, callstack_clear m))"
  by (simp add: execution_engine_def execution_engine_epilogue_def split: prod.splits status.splits)

lemma pending_peak_ge: "well_formed t \<Longrightarrow> d < pending_peak t d"
  by (induction t arbitrary: d) (auto split: sum.splits simp: less_max_iff_disj)

lemma operate_not_success:
  "operate k a b = (s, w) \<Longrightarrow> s \<noteq> SUCCESS \<Longrightarrow> s = FAILURE DivisionByZero \<or> s = ABORT DivisionOverflow"
  by (cases k) (auto split: if_splits)

lemma ideal_value_Inl: "ideal_value t = Inl s \<Longrightarrow> s \<noteq> SUCCESS"
  by (induction t arbitrary: s) (auto split: sum.splits prod.splits status.splits)

lemma do_operation_ok:
  assumes "callstack_top m + 2 \<le> MAX_CALLSTACK_DEPTH"
    and "operate k (callstack m (Suc (callstack_top m))) (callstack m (callstack_top m)) = (SUCCESS, v)"
  shows "execution_engine_do_operation k m =
     (SUCCESS, m\<lparr>callstack := (callstack m)(Suc (callstack_top m) := v), callstack_top := Suc (callstack_top m)\<rparr>)"
  using assms
  by (simp add: execution_engine_do_operation_def callstack_pop_def callstack_push_def MAX_CALLSTACK_DEPTH_def)

lemma do_operation_fail:
  assumes "callstack_top m + 2 \<le> MAX_CALLSTACK_DEPTH"
    and "operate k (callstack m (Suc (callstack_top m))) (callstack m (callstack_top m)) = (s, w)"
    and "s \<noteq> SUCCESS"
  shows "fst (execution_engine_do_operation k m) = s"
  using assms
  by (cases s) (simp_all add: execution_engine_do_operation_def callstack_pop_def MAX_CALLSTACK_DEPTH_def)

lemma process_value:
  assumes "well_formed t" "callstack_top m \<le> MAX_CALLSTACK_DEPTH"
    and "pending_peak t (MAX_CALLSTACK_DEPTH - callstack_top m) \<le> MAX_CALLSTACK_DEPTH"
    and "ideal_value t = Inr v"
  shows "\<exists>m'. execution_engine_process_ast_node t m = (SUCCESS, m')
          \<and> Suc (callstack_top m') = callstack_top m
          \<and> callstack m' (callstack_top m') = v
          \<and> (\<forall>i \<ge> callstack_top m. callstack m' i = callstack m i)"
  using assms
proof (induction t arbitrary: m v)
  case NULL
  then show ?case by simp
next
  case (ast_num x)
  then show ?case
    by (auto simp: callstack_is_full_def callstack_push_def MAX_CALLSTACK_DEPTH_def)
next
  case (ast_op k l r)
  from ast_op.prems obtain a b where a: "ideal_value l = Inr a" and b: "ideal_value r = Inr b"
    and op: "operate k a b = (SUCCESS, v)"
    by (auto split: sum.splits status.splits prod.splits)
  from ast_op.prems a have pl: "pending_peak l (MAX_CALLSTACK_DEPTH - callstack_top m) \<le> MAX_CALLSTACK_DEPTH"
    and pr: "pending_peak r (Suc (MAX_CALLSTACK_DEPTH - callstack_top m)) \<le> MAX_CALLSTACK_DEPTH"
    by auto
  from ast_op.prems have wl: "well_formed l" and wr: "well_formed r" by auto
  from ast_op.IH(1)[OF wl ast_op.prems(2) pl a] obtain m1 where
    m1: "execution_engine_process_ast_node l m = (SUCCESS, m1)"
      "Suc (callstack_top m1) = callstack_top m"
      "callstack m1 (callstack_top m1) = a"
      "\<forall>i \<ge> callstack_top m. callstack m1 i = callstack m i"
    by blast
  have t1: "callstack_top m1 \<le> MAX_CALLSTACK_DEPTH" using m1(2) ast_op.prems(2) by simp
  have d1: "MAX_CALLSTACK_DEPTH - callstack_top m1 = Suc (MAX_CALLSTACK_DEPTH - callstack_top m)"
    using m1(2) ast_op.prems(2) by simp
  from ast_op.IH(2)[OF wr t1 _ b] pr d1 obtain m2 where
    m2: "execution_engine_process_ast_node r m1 = (SUCCESS, m2)"
      "Suc (callstack_top m2) = callstack_top m1"
      "callstack m2 (callstack_top m2) = b"
      "\<forall>i \<ge> callstack_top m1. callstack m2 i = callstack m1 i"
    by auto
  have two: "callstack_top m2 + 2 \<le> MAX_CALLSTACK_DEPTH"
    using m2(2) m1(2) ast_op.prems(2) by simp
  have left: "callstack m2 (Suc (callstack_top m2)) = a"
    using m2(2,4) m1(3) by simp
  from do_operation_ok[OF two] left m2(3) op
  have "execution_engine_do_operation k m2 =
     (SUCCESS, m2\<lparr>callstack := (callstack m2)(Suc (callstack_top m2) := v), callstack_top := Suc (callstack_top m2)\<rparr>)"
    by simp
  with m1 m2 show ?case by auto
qed

lemma process_stops:
  assumes "well_formed t" "callstack_top m \<le> MAX_CALLSTACK_DEPTH"
    and "pending_peak t (MAX_CALLSTACK_DEPTH - callstack_top m) \<le> MAX_CALLSTACK_DEPTH"
    and "ideal_value t = Inl s"
  shows "fst (execution_engine_process_ast_node t m) = s"
  using assms
proof (induction t arbitrary: m s)
  case NULL
  then show ?case by simp
next
  case (ast_num x)
  then show ?case by simp
next
  case (ast_op k l r)
  from ast_op.prems have wl: "well_formed l" and wr: "well_formed r" by auto
  have ns: "s \<noteq> SUCCESS" using ast_op.prems(4) by (rule ideal_value_Inl)
  show ?case
  proof (cases "ideal_value l")
    case (Inl s')
    with ast_op.prems have "s' = s" "pending_peak l (MAX_CALLSTACK_DEPTH - callstack_top m) \<le> MAX_CALLSTACK_DEPTH"
      by auto
    with ast_op.IH(1)[OF wl ast_op.prems(2) _ Inl] have "fst (execution_engine_process_ast_node l m) = s" by simp
    with ns show ?thesis by (auto split: prod.splits status.splits)
  next
    case a: (Inr a)
    from ast_op.prems a have pl: "pending_peak l (MAX_CALLSTACK_DEPTH - callstack_top m) \<le> MAX_CALLSTACK_DEPTH"
      and pr: "pending_peak r (Suc (MAX_CALLSTACK_DEPTH - callstack_top m)) \<le> MAX_CALLSTACK_DEPTH"
      by auto
    from process_value[OF wl ast_op.prems(2) pl a] obtain m1 where
      m1: "execution_engine_process_ast_node l m = (SUCCESS, m1)"
        "Suc (callstack_top m1) = callstack_top m"
        "callstack m1 (callstack_top m1) = a"
      by blast
    have t1: "callstack_top m1 \<le> MAX_CALLSTACK_DEPTH" using m1(2) ast_op.prems(2) by simp
    have d1: "MAX_CALLSTACK_DEPTH - callstack_top m1 = Suc (MAX_CALLSTACK_DEPTH - callstack_top m)"
      using m1(2) ast_op.prems(2) by simp
    show ?thesis
    proof (cases "ideal_value r")
      case (Inl s')
      with ast_op.prems a have "s' = s" by auto
      with ast_op.IH(2)[OF wr t1 _ Inl] pr d1
      have "fst (execution_engine_process_ast_node r m1) = s" by simp
      with ns m1(1) show ?thesis by (auto split: prod.splits status.splits)
    next
      case b: (Inr b)
      from process_value[OF wr t1 _ b] pr d1 obtain m2 where
        m2: "execution_engine_process_ast_node r m1 = (SUCCESS, m2)"
          "Suc (callstack_top m2) = callstack_top m1"
          "callstack m2 (callstack_top m2) = b"
          "\<forall>i \<ge> callstack_top m1. callstack m2 i = callstack m1 i"
        by auto
      have two: "callstack_top m2 + 2 \<le> MAX_CALLSTACK_DEPTH"
        using m2(2) m1(2) ast_op.prems(2) by simp
      have left: "callstack m2 (Suc (callstack_top m2)) = a"
        using m2(2,4) m1(3) by simp
      obtain w where op: "operate k a b = (s, w)"
        using ast_op.prems(4) a b by (auto split: prod.splits status.splits)
      from do_operation_fail[OF two _ ns] left m2(3) op
      have "fst (execution_engine_do_operation k m2) = s" by simp
      with m1(1) m2(1) show ?thesis by simp
    qed
  qed
qed

lemma process_overflow:
  assumes "well_formed t" "callstack_top m \<le> MAX_CALLSTACK_DEPTH"
    and "MAX_CALLSTACK_DEPTH < pending_peak t (MAX_CALLSTACK_DEPTH - callstack_top m)"
  shows "fst (execution_engine_process_ast_node t m) = FAILURE StackOverflow"
  using assms
proof (induction t arbitrary: m)
  case NULL
  then show ?case by simp
next
  case (ast_num x)
  then have "callstack_top m = 0" by simp
  then show ?case by (simp add: callstack_is_full_def)
next
  case (ast_op k l r)
  from ast_op.prems have wl: "well_formed l" and wr: "well_formed r" by auto
  show ?case
  proof (cases "MAX_CALLSTACK_DEPTH < pending_peak l (MAX_CALLSTACK_DEPTH - callstack_top m)")
    case True
    from ast_op.IH(1)[OF wl ast_op.prems(2) True] show ?thesis
      by (auto split: prod.splits status.splits)
  next
    case False
    with ast_op.prems(3) obtain a where a: "ideal_value l = Inr a"
      and pr: "MAX_CALLSTACK_DEPTH < pending_peak r (Suc (MAX_CALLSTACK_DEPTH - callstack_top m))"
      by (auto split: sum.splits)
    from False have pl: "pending_peak l (MAX_CALLSTACK_DEPTH - callstack_top m) \<le> MAX_CALLSTACK_DEPTH"
      by simp
    from process_value[OF wl ast_op.prems(2) pl a] obtain m1 where
      m1: "execution_engine_process_ast_node l m = (SUCCESS, m1)"
        "Suc (callstack_top m1) = callstack_top m"
      by blast
    have t1: "callstack_top m1 \<le> MAX_CALLSTACK_DEPTH" using m1(2) ast_op.prems(2) by simp
    have d1: "MAX_CALLSTACK_DEPTH - callstack_top m1 = Suc (MAX_CALLSTACK_DEPTH - callstack_top m)"
      using m1(2) ast_op.prems(2) by simp
    from ast_op.IH(2)[OF wr t1] pr d1
    have "fst (execution_engine_process_ast_node r m1) = FAILURE StackOverflow" by simp
    with m1(1) show ?thesis by (auto split: prod.splits status.splits)
  qed
qed

lemma do_operation_same:
  assumes "same_pending m m'"
  shows "fst (execution_engine_do_operation k m) = fst (execution_engine_do_operation k m')
       \<and> same_pending (snd (execution_engine_do_operation k m)) (snd (execution_engine_do_operation k m'))"
  using assms
  by (auto simp: same_pending_def execution_engine_do_operation_def callstack_pop_def callstack_push_def
      split: prod.splits status.splits)

lemma process_same:
  assumes "same_pending m m'"
  shows "fst (execution_engine_process_ast_node t m) = fst (execution_engine_process_ast_node t m')
       \<and> same_pending (snd (execution_engine_process_ast_node t m)) (snd (execution_engine_process_ast_node t m'))"
  using assms
proof (induction t arbitrary: m m')
  case NULL
  then show ?case by simp
next
  case (ast_num x)
  then show ?case
    by (auto simp: same_pending_def callstack_is_full_def callstack_push_def)
next
  case (ast_op k l r)
  obtain s1 m1 where l: "execution_engine_process_ast_node l m = (s1, m1)" by (cases "execution_engine_process_ast_node l m")
  obtain s1' m1' where l': "execution_engine_process_ast_node l m' = (s1', m1')" by (cases "execution_engine_process_ast_node l m'")
  from ast_op.IH(1)[OF ast_op.prems] l l' have e1: "s1' = s1" and p1: "same_pending m1 m1'" by auto
  obtain s2 m2 where r: "execution_engine_process_ast_node r m1 = (s2, m2)" by (cases "execution_engine_process_ast_node r m1")
  obtain s2' m2' where r': "execution_engine_process_ast_node r m1' = (s2', m2')" by (cases "execution_engine_process_ast_node r m1'")
  from ast_op.IH(2)[OF p1] r r' have e2: "s2' = s2" and p2: "same_pending m2 m2'" by auto
  show ?case
  proof (cases s1)
    case SUCCESS
    show ?thesis
    proof (cases s2)
      case s2: SUCCESS
      with SUCCESS l l' r r' e1 e2 do_operation_same[OF p2, of k] show ?thesis by simp
    qed (use SUCCESS l l' r r' e1 e2 p2 in simp_all)
  qed (use l l' e1 p1 in simp_all)
qed

lemma engine_same:
  assumes "same_pending m m'"
  shows "fst (execution_engine t m) = fst (execution_engine t m')
       \<and> fst (snd (execution_engine t m)) = fst (snd (execution_engine t m'))"
proof -
  obtain s1 m1 where l: "execution_engine_process_ast_node t m = (s1, m1)" by (cases "execution_engine_process_ast_node t m")
  obtain s1' m1' where l': "execution_engine_process_ast_node t m' = (s1', m1')" by (cases "execution_engine_process_ast_node t m'")
  from process_same[OF assms, of t] l l' have e1: "s1' = s1" and p1: "same_pending m1 m1'" by auto
  from p1 have "callstack_top m1 = callstack_top m1'"
    "callstack_top m1 < MAX_CALLSTACK_DEPTH \<Longrightarrow> callstack m1 (callstack_top m1) = callstack m1' (callstack_top m1')"
    by (auto simp: same_pending_def)
  with l l' e1 show ?thesis
    by (cases s1) (auto simp: execution_engine_unfold callstack_is_empty_def callstack_pop_def)
qed

lemma engine_leaves_empty:
  assumes "\<forall>f. fst (execution_engine t m) \<noteq> ABORT f"
  shows "callstack_is_empty (snd (snd (execution_engine t m)))"
  using assms
  by (auto simp: execution_engine_unfold callstack_is_empty_def callstack_clear_def callstack_pop_def
      split: prod.splits status.splits if_splits)

lemma empty_same_pending:
  "callstack_is_empty m \<Longrightarrow> callstack_is_empty m' \<Longrightarrow> same_pending m m'"
  by (auto simp: callstack_is_empty_def same_pending_def)

lemma ideal_value_stop:
  "ideal_value t = Inl s \<Longrightarrow> well_formed t \<Longrightarrow> s = FAILURE DivisionByZero \<or> s = ABORT DivisionOverflow"
proof (induction t arbitrary: s)
  case (ast_op k l r)
  then show ?case
    by (auto split: sum.splits prod.splits status.splits dest: operate_not_success)
qed simp_all

lemma engine_status:
  assumes "well_formed t" "callstack_is_empty m"
  shows "fst (execution_engine t m) =
     (if MAX_CALLSTACK_DEPTH < pending_peak t 0 then FAILURE StackOverflow
      else (case ideal_value t of Inl s \<Rightarrow> s | Inr v \<Rightarrow> SUCCESS))"
    and "fst (snd (execution_engine t m)) =
     (if MAX_CALLSTACK_DEPTH < pending_peak t 0 then None
      else (case ideal_value t of Inl s \<Rightarrow> None | Inr v \<Rightarrow> Some v))"
proof -
  from assms(2) have top: "callstack_top m \<le> MAX_CALLSTACK_DEPTH" and d: "MAX_CALLSTACK_DEPTH - callstack_top m = 0"
    by (simp_all add: callstack_is_empty_def)
  from assms(1) have nn: "t \<noteq> NULL" by auto
  obtain s1 m1 where p: "execution_engine_process_ast_node t m = (s1, m1)" by (cases "execution_engine_process_ast_node t m")
  consider (over) "MAX_CALLSTACK_DEPTH < pending_peak t 0"
    | (stop) s where "pending_peak t 0 \<le> MAX_CALLSTACK_DEPTH" "ideal_value t = Inl s"
    | (val) v where "pending_peak t 0 \<le> MAX_CALLSTACK_DEPTH" "ideal_value t = Inr v"
    using linorder_not_less by (cases "ideal_value t") blast+
  then have "fst (execution_engine t m) =
     (if MAX_CALLSTACK_DEPTH < pending_peak t 0 then FAILURE StackOverflow
      else (case ideal_value t of Inl s \<Rightarrow> s | Inr v \<Rightarrow> SUCCESS))
   \<and> fst (snd (execution_engine t m)) =
     (if MAX_CALLSTACK_DEPTH < pending_peak t 0 then None
      else (case ideal_value t of Inl s \<Rightarrow> None | Inr v \<Rightarrow> Some v))"
  proof cases
    case over
    with process_overflow[OF assms(1) top] d p have "s1 = FAILURE StackOverflow" by simp
    with over p nn show ?thesis by (simp add: execution_engine_unfold)
  next
    case stop
    with process_stops[OF assms(1) top _ stop(2)] d p have "s1 = s" by simp
    moreover from ideal_value_stop[OF stop(2) assms(1)] have "s = FAILURE DivisionByZero \<or> s = ABORT DivisionOverflow" .
    ultimately show ?thesis using stop p nn by (auto simp: execution_engine_unfold)
  next
    case val
    from process_value[OF assms(1) top _ val(2)] d val(1) p
    have "s1 = SUCCESS" "Suc (callstack_top m1) = callstack_top m" "callstack m1 (callstack_top m1) = v"
      by auto
    with val p nn assms(2) show ?thesis
      by (auto simp: execution_engine_unfold callstack_is_empty_def callstack_pop_def)
  qed
  then show "fst (execution_engine t m) =
     (if MAX_CALLSTACK_DEPTH < pending_peak t 0 then FAILURE StackOverflow
      else (case ideal_value t of Inl s \<Rightarrow> s | Inr v \<Rightarrow> SUCCESS))"
    and "fst (snd (execution_engine t m)) =
     (if MAX_CALLSTACK_DEPTH < pending_peak t 0 then None
      else (case ideal_value t of Inl s \<Rightarrow> None | Inr v \<Rightarrow> Some v))"
    by simp_all
qed

lemma process_success_shape:
  assumes "well_formed t" "callstack_top m \<le> MAX_CALLSTACK_DEPTH"
    and "execution_engine_process_ast_node t m = (SUCCESS, m')"
  shows "Suc (callstack_top m') = callstack_top m \<and> (\<forall>i \<ge> callstack_top m. callstack m' i = callstack m i)
     \<and> ideal_value t = Inr (callstack m' (callstack_top m'))"
proof -
  let ?d = "MAX_CALLSTACK_DEPTH - callstack_top m"
  have 1: "pending_peak t ?d \<le> MAX_CALLSTACK_DEPTH"
    using process_overflow[OF assms(1,2)] assms(3) by (cases "MAX_CALLSTACK_DEPTH < pending_peak t ?d") auto
  obtain v where v: "ideal_value t = Inr v"
    using process_stops[OF assms(1,2) 1] assms(3) ideal_value_Inl by (cases "ideal_value t") fastforce+
  from process_value[OF assms(1,2) 1 v] assms(3) v show ?thesis by auto
qed



lemma sdiv_int_abs: "\<bar>(a::int) sdiv b\<bar> = \<bar>a\<bar> div \<bar>b\<bar>"
proof -
  have "0 \<le> \<bar>a\<bar> div \<bar>b\<bar>" by (simp add: div_int_pos_iff)
  then show ?thesis
    by (cases "a = 0"; cases "b = 0") (simp_all add: signed_divide_int_def abs_mult)
qed

lemma sdiv_int_truncated:
  assumes "(b::int) \<noteq> 0"
  shows "truncated_quotient a b (a sdiv b)"
proof -
  have pos: "0 < \<bar>b\<bar>" using assms by simp
  have split: "\<bar>a\<bar> = \<bar>a\<bar> div \<bar>b\<bar> * \<bar>b\<bar> + \<bar>a\<bar> mod \<bar>b\<bar>" by simp
  have lo: "0 \<le> \<bar>a\<bar> mod \<bar>b\<bar>" using pos by (rule pos_mod_sign)
  have hi: "\<bar>a\<bar> mod \<bar>b\<bar> < \<bar>b\<bar>" using pos by (rule pos_mod_bound)
  from split lo have 1: "\<bar>a sdiv b\<bar> * \<bar>b\<bar> \<le> \<bar>a\<bar>"
    unfolding sdiv_int_abs by linarith
  have "(\<bar>a sdiv b\<bar> + 1) * \<bar>b\<bar> = \<bar>a\<bar> div \<bar>b\<bar> * \<bar>b\<bar> + \<bar>b\<bar>"
    unfolding sdiv_int_abs by (simp add: algebra_simps)
  with split hi have 2: "\<bar>a\<bar> < (\<bar>a sdiv b\<bar> + 1) * \<bar>b\<bar>"
    by linarith
  have 3: "a sdiv b = 0 \<or> sgn (a sdiv b) = sgn a * sgn b"
  proof (cases "\<bar>a\<bar> div \<bar>b\<bar> = 0")
    case True
    then show ?thesis by (simp add: signed_divide_int_def)
  next
    case False
    moreover have "0 \<le> \<bar>a\<bar> div \<bar>b\<bar>" by (simp add: div_int_pos_iff)
    ultimately have "0 < \<bar>a\<bar> div \<bar>b\<bar>" by linarith
    then show ?thesis by (simp add: signed_divide_int_def sgn_mult)
  qed
  from 1 2 3 show ?thesis by (simp add: truncated_quotient_def)
qed

lemma INT_MIN_sint: "(a = INT_MIN) = (sint a = - (2 ^ 31))" for a :: cint
proof
  assume "a = INT_MIN" then show "sint a = - (2 ^ 31)" by (simp add: INT_MIN_def)
next
  assume "sint a = - (2 ^ 31)"
  then have "word_of_int (sint a) = (word_of_int (- (2 ^ 31)) :: cint)" by simp
  then show "a = INT_MIN" by (simp add: INT_MIN_def)
qed

lemma minus_one_sint: "(b = - 1) = (sint b = - 1)" for b :: cint
proof
  assume "b = - 1" then show "sint b = - 1" by simp
next
  assume "sint b = - 1"
  then have "word_of_int (sint b) = (word_of_int (- 1) :: cint)" by simp
  then show "b = - 1" by simp
qed

lemma c_div_sint:
  assumes "b \<noteq> 0" "\<not> (a = INT_MIN \<and> b = - 1)"
  shows "sint (c_div a b) = sint a sdiv sint b"
proof -
  let ?a = "sint a" and ?b = "sint b"
  have ra: "- (2 ^ 31) \<le> ?a" "?a < 2 ^ 31" using sint_ge[of a] sint_lt[of a] by simp_all
  have b0: "?b \<noteq> 0"
  proof
    assume "?b = 0"
    then have "word_of_int ?b = (0 :: cint)" by simp
    with assms(1) show False by simp
  qed
  have ex: "\<not> (?a = - (2 ^ 31) \<and> ?b = - 1)" using assms(2) by (simp add: INT_MIN_sint minus_one_sint)
  have abs_le: "\<bar>?a sdiv ?b\<bar> \<le> \<bar>?a\<bar>"
  proof -
    have "\<bar>?a sdiv ?b\<bar> * 1 \<le> \<bar>?a sdiv ?b\<bar> * \<bar>?b\<bar>"
      using b0 by (intro mult_left_mono) simp_all
    also have "\<dots> \<le> \<bar>?a\<bar>"
      using sdiv_int_truncated[OF b0, of ?a] by (simp add: truncated_quotient_def)
    finally show ?thesis by simp
  qed
  have lo: "- (2 ^ 31) \<le> ?a sdiv ?b" using abs_le ra by linarith
  have hi: "?a sdiv ?b < 2 ^ 31"
  proof (cases "?a = - (2 ^ 31)")
    case False
    with abs_le ra show ?thesis by linarith
  next
    case True
    with ex have b1: "?b \<noteq> - 1" by simp
    show ?thesis
    proof (cases "?b = 1")
      case b: True
      show ?thesis unfolding True b by (simp add: signed_divide_int_def)
    next
      case False
      with b0 b1 have "2 \<le> \<bar>?b\<bar>" by linarith
      then have "\<bar>?a\<bar> div \<bar>?b\<bar> \<le> \<bar>?a\<bar> div 2"
        by (intro zdiv_mono2) simp_all
      then have "\<bar>?a sdiv ?b\<bar> \<le> 1073741824" unfolding sdiv_int_abs True by simp
      then show ?thesis by simp
    qed
  qed
  have "sint (c_div a b) = signed_take_bit 31 (?a sdiv ?b)"
    by (simp add: c_div_def sint_sbintrunc')
  also have "\<dots> = ?a sdiv ?b"
    using lo hi by (intro signed_take_bit_int_eq_self) simp_all
  finally show ?thesis .
qed

lemma pending_peak_nested_sum: "pending_peak (nested_sum n) d = Suc (d + n)"
  by (induction n arbitrary: d) simp_all

lemma well_formed_nested_sum: "well_formed (nested_sum n)"
  by (induction n) simp_all

lemma ideal_value_nested_sum: "ideal_value (nested_sum n) = Inr (word_of_nat (Suc n))"
  by (induction n) simp_all

lemma pending_peak_le_needed: "pending_peak t d \<le> operands_needed t d"
proof (induction t arbitrary: d)
  case (ast_op k l r)
  have "pending_peak l d \<le> operands_needed l d" "pending_peak r (Suc d) \<le> operands_needed r (Suc d)"
    by (rule ast_op.IH)+
  then show ?case by (auto split: sum.splits simp: max.coboundedI1 max.coboundedI2)
qed simp_all

lemma pending_peak_needed:
  "ideal_value t = Inr v \<Longrightarrow> pending_peak t d = operands_needed t d"
proof (induction t arbitrary: d v)
  case (ast_op k l r)
  from ast_op.prems obtain a b where "ideal_value l = Inr a" "ideal_value r = Inr b"
    by (auto split: sum.splits)
  with ast_op.IH show ?case by simp
qed simp_all

lemma operands_needed_nested_sum: "operands_needed (nested_sum n) d = Suc (d + n)"
  by (induction n arbitrary: d) simp_all

text \<open>
  Claim C4, amended. For a well-formed tree evaluated from an empty stack, the evaluator
  fails with StackOverflow exactly when the traversal, up to its first division without a
  result, has more than 32 operand values pending at once; that number never exceeds what
  the shape of the tree asks for. When every division of the tree has a result, it is what
  the shape asks for: the evaluator then fails with StackOverflow exactly when the tree
  needs more than 32 pending operands, and evaluates a tree that needs 32 or fewer to its
  value. A division without a result that is met with at most 32 operands pending is
  reported instead. Processing a number node on a stack that already holds 32 values
  (\<open>callstack_top = 0\<close>) fails with StackOverflow and changes nothing.
\<close>

theorem stack_bound:
  assumes "well_formed t" and "callstack_is_empty m"
  shows "(fst (execution_engine t m) = FAILURE StackOverflow) = (MAX_CALLSTACK_DEPTH < pending_peak t 0)
       \<and> pending_peak t 0 \<le> operands_needed t 0
       \<and> (\<forall>v. ideal_value t = Inr v \<longrightarrow>
             pending_peak t 0 = operands_needed t 0
             \<and> (fst (execution_engine t m) = FAILURE StackOverflow) = (MAX_CALLSTACK_DEPTH < operands_needed t 0)
             \<and> (operands_needed t 0 \<le> MAX_CALLSTACK_DEPTH \<longrightarrow>
                  fst (execution_engine t m) = SUCCESS \<and> fst (snd (execution_engine t m)) = Some v))
       \<and> (\<forall>s. ideal_value t = Inl s \<and> pending_peak t 0 \<le> MAX_CALLSTACK_DEPTH \<longrightarrow>
             fst (execution_engine t m) = s \<and> (s = FAILURE DivisionByZero \<or> s = ABORT DivisionOverflow))
       \<and> (\<forall>x m'. callstack_top m' = 0 \<longrightarrow>
            execution_engine_process_ast_node (ast_num x) m' = (FAILURE StackOverflow, m'))"
proof -
  have iff: "(fst (execution_engine t m) = FAILURE StackOverflow) = (MAX_CALLSTACK_DEPTH < pending_peak t 0)"
  proof (cases "ideal_value t")
    case (Inl s)
    from ideal_value_stop[OF Inl assms(1)] Inl show ?thesis
      by (auto simp: engine_status(1)[OF assms])
  next
    case (Inr v)
    then show ?thesis by (simp add: engine_status(1)[OF assms])
  qed
  have le: "pending_peak t 0 \<le> operands_needed t 0" by (rule pending_peak_le_needed)
  have safe: "\<forall>v. ideal_value t = Inr v \<longrightarrow>
             pending_peak t 0 = operands_needed t 0
             \<and> (fst (execution_engine t m) = FAILURE StackOverflow) = (MAX_CALLSTACK_DEPTH < operands_needed t 0)
             \<and> (operands_needed t 0 \<le> MAX_CALLSTACK_DEPTH \<longrightarrow>
                  fst (execution_engine t m) = SUCCESS \<and> fst (snd (execution_engine t m)) = Some v)"
  proof (intro allI impI)
    fix v assume v: "ideal_value t = Inr v"
    have eq: "pending_peak t 0 = operands_needed t 0" using v by (rule pending_peak_needed)
    with iff v show "pending_peak t 0 = operands_needed t 0
             \<and> (fst (execution_engine t m) = FAILURE StackOverflow) = (MAX_CALLSTACK_DEPTH < operands_needed t 0)
             \<and> (operands_needed t 0 \<le> MAX_CALLSTACK_DEPTH \<longrightarrow>
                  fst (execution_engine t m) = SUCCESS \<and> fst (snd (execution_engine t m)) = Some v)"
      by (simp add: engine_status[OF assms])
  qed
  have stop: "\<forall>s. ideal_value t = Inl s \<and> pending_peak t 0 \<le> MAX_CALLSTACK_DEPTH \<longrightarrow>
             fst (execution_engine t m) = s \<and> (s = FAILURE DivisionByZero \<or> s = ABORT DivisionOverflow)"
    using ideal_value_stop[OF _ assms(1)] by (auto simp: engine_status(1)[OF assms])
  have full: "\<forall>x m'. callstack_top m' = 0 \<longrightarrow>
            execution_engine_process_ast_node (ast_num x) m' = (FAILURE StackOverflow, m')"
    by (simp add: callstack_is_full_def)
  from iff le safe stop full show ?thesis by blast
qed

theorem stack_bound_witness:
  "well_formed (nested_sum 31) \<and> callstack_is_empty initial_machine
   \<and> operands_needed (nested_sum 31) 0 = 32
   \<and> fst (execution_engine (nested_sum 31) initial_machine) = SUCCESS
   \<and> fst (snd (execution_engine (nested_sum 31) initial_machine)) = Some 32
   \<and> operands_needed (nested_sum 32) 0 = 33
   \<and> fst (execution_engine (nested_sum 32) initial_machine) = FAILURE StackOverflow"
proof -
  have e: "callstack_is_empty initial_machine"
    by (simp add: callstack_is_empty_def initial_machine_def)
  have p31: "operands_needed (nested_sum 31) 0 = 32" and p32: "operands_needed (nested_sum 32) 0 = 33"
    by (simp_all add: operands_needed_nested_sum)
  have v: "ideal_value (nested_sum 31) = Inr 32" and v': "ideal_value (nested_sum 32) = Inr 33"
    by (simp_all add: ideal_value_nested_sum)
  note sb = stack_bound[OF well_formed_nested_sum e]
  from sb[of 31, THEN conjunct2, THEN conjunct2, THEN conjunct1, rule_format, OF v] p31
  have a: "fst (execution_engine (nested_sum 31) initial_machine) = SUCCESS"
    "fst (snd (execution_engine (nested_sum 31) initial_machine)) = Some 32"
    by (simp_all add: MAX_CALLSTACK_DEPTH_def)
  from sb[of 32, THEN conjunct2, THEN conjunct2, THEN conjunct1, rule_format, OF v'] p32
  have b: "fst (execution_engine (nested_sum 32) initial_machine) = FAILURE StackOverflow"
    by (simp add: MAX_CALLSTACK_DEPTH_def)
  from e p31 p32 a b well_formed_nested_sum show ?thesis by simp
qed

text \<open>
  The claim as written fails for two trees the parser builds. \<open>(1+(1+...+1))/0\<close> with 32
  ones needs exactly 32 pending operands and does not evaluate successfully: it fails with
  DivisionByZero. \<open>5/0+(1+(1+...+1))\<close> with 41 ones needs 42 and fails with DivisionByZero,
  not with StackOverflow.
\<close>

theorem stack_bound_counterexample:
  "well_formed (ast_op ast_div (nested_sum 31) (ast_num 0))
   \<and> operands_needed (ast_op ast_div (nested_sum 31) (ast_num 0)) 0 = 32
   \<and> fst (execution_engine (ast_op ast_div (nested_sum 31) (ast_num 0)) initial_machine)
       = FAILURE DivisionByZero
   \<and> well_formed (ast_op ast_add (ast_op ast_div (ast_num 5) (ast_num 0)) (nested_sum 40))
   \<and> operands_needed (ast_op ast_add (ast_op ast_div (ast_num 5) (ast_num 0)) (nested_sum 40)) 0 = 42
   \<and> fst (execution_engine (ast_op ast_add (ast_op ast_div (ast_num 5) (ast_num 0)) (nested_sum 40))
        initial_machine) = FAILURE DivisionByZero"
proof -
  let ?t1 = "ast_op ast_div (nested_sum 31) (ast_num 0)"
  let ?t2 = "ast_op ast_add (ast_op ast_div (ast_num 5) (ast_num 0)) (nested_sum 40)"
  have e: "callstack_is_empty initial_machine"
    by (simp add: callstack_is_empty_def initial_machine_def)
  have w1: "well_formed ?t1" and w2: "well_formed ?t2"
    by (simp_all add: well_formed_nested_sum)
  have n1: "operands_needed ?t1 0 = 32" and n2: "operands_needed ?t2 0 = 42"
    by (simp_all add: operands_needed_nested_sum)
  have v1: "ideal_value ?t1 = Inl (FAILURE DivisionByZero)"
    and v2: "ideal_value ?t2 = Inl (FAILURE DivisionByZero)"
    by (simp_all add: ideal_value_nested_sum)
  have p1: "pending_peak ?t1 0 = 32" and p2: "pending_peak ?t2 0 = 2"
    by (simp_all add: ideal_value_nested_sum pending_peak_nested_sum)
  have r1: "fst (execution_engine ?t1 initial_machine) = FAILURE DivisionByZero"
    unfolding engine_status(1)[OF w1 e] v1 p1 by (simp add: MAX_CALLSTACK_DEPTH_def)
  have r2: "fst (execution_engine ?t2 initial_machine) = FAILURE DivisionByZero"
    unfolding engine_status(1)[OF w2 e] v2 p2 by (simp add: MAX_CALLSTACK_DEPTH_def)
  from w1 w2 n1 n2 r1 r2 show ?thesis by simp
qed

text \<open>
  Claim C6. Whenever \<open>execution_engine\<close> returns, with success or with a failure, the stack
  it leaves is empty, and evaluating any later tree on that stack gives the status and the
  output it gives on the stack of program start: no stack contents leak into a later line.
\<close>

theorem stack_reset:
  "(\<forall>f. fst (execution_engine t m) \<noteq> ABORT f) \<longrightarrow>
     callstack_is_empty (snd (snd (execution_engine t m))) \<and>
     (\<forall>t'. fst (execution_engine t' (snd (snd (execution_engine t m)))) = fst (execution_engine t' initial_machine)
         \<and> fst (snd (execution_engine t' (snd (snd (execution_engine t m))))) = fst (snd (execution_engine t' initial_machine)))"
proof (intro impI conjI allI)
  assume a: "\<forall>f. fst (execution_engine t m) \<noteq> ABORT f"
  then show e: "callstack_is_empty (snd (snd (execution_engine t m)))" by (rule engine_leaves_empty)
  have i: "callstack_is_empty initial_machine" by (simp add: callstack_is_empty_def initial_machine_def)
  fix t'
  from engine_same[OF empty_same_pending[OF e i], of t']
  show "fst (execution_engine t' (snd (snd (execution_engine t m)))) = fst (execution_engine t' initial_machine)"
    and "fst (snd (execution_engine t' (snd (snd (execution_engine t m))))) = fst (snd (execution_engine t' initial_machine))"
    by simp_all
qed

theorem stack_reset_witness:
  "fst (execution_engine (ast_op ast_div (ast_num 5) (ast_num 0)) initial_machine) = FAILURE DivisionByZero
   \<and> callstack_is_empty (snd (snd (execution_engine (ast_op ast_div (ast_num 5) (ast_num 0)) initial_machine)))
   \<and> fst (snd (execution_engine (ast_op ast_add (ast_num 2) (ast_num 3))
        (snd (snd (execution_engine (ast_op ast_div (ast_num 5) (ast_num 0)) initial_machine))))) = Some 5"
proof -
  let ?t = "ast_op ast_div (ast_num 5) (ast_num 0)"
  have s: "fst (execution_engine ?t initial_machine) = FAILURE DivisionByZero"
    by (simp add: execution_engine_unfold execution_engine_do_operation_def callstack_is_full_def
        callstack_push_def callstack_pop_def initial_machine_def MAX_CALLSTACK_DEPTH_def)
  then have n: "\<forall>f. fst (execution_engine ?t initial_machine) \<noteq> ABORT f" by simp
  have v: "fst (snd (execution_engine (ast_op ast_add (ast_num 2) (ast_num 3)) initial_machine)) = Some 5"
    by (simp add: execution_engine_unfold execution_engine_do_operation_def callstack_is_full_def
        callstack_push_def callstack_pop_def callstack_is_empty_def initial_machine_def MAX_CALLSTACK_DEPTH_def)
  from stack_reset[of ?t initial_machine] n v s show ?thesis by simp
qed



text \<open>
  Claim C3, amended. Once both operands of a division node have been evaluated, a right
  operand 0 makes the node fail with DivisionByZero; a right operand other than 0 makes it
  leave, in place of the two operands, the quotient truncated towards zero, unless the
  operands are \<open>INT_MIN\<close> and -1, whose quotient is no \<open>int\<close>. The line \<open>7 / 2\<close> evaluates
  to 3.
\<close>

theorem division_semantics:
  assumes "well_formed l" and "well_formed r" and "callstack_top m \<le> MAX_CALLSTACK_DEPTH"
    and "execution_engine_process_ast_node l m = (SUCCESS, m1)"
    and "execution_engine_process_ast_node r m1 = (SUCCESS, m2)"
  shows "(callstack m2 (callstack_top m2) = 0 \<longrightarrow>
            fst (execution_engine_process_ast_node (ast_op ast_div l r) m) = FAILURE DivisionByZero)
       \<and> (callstack m2 (callstack_top m2) \<noteq> 0
            \<and> \<not> (callstack m1 (callstack_top m1) = INT_MIN \<and> callstack m2 (callstack_top m2) = - 1) \<longrightarrow>
            fst (execution_engine_process_ast_node (ast_op ast_div l r) m) = SUCCESS
            \<and> Suc (callstack_top (snd (execution_engine_process_ast_node (ast_op ast_div l r) m))) = callstack_top m
            \<and> truncated_quotient (sint (callstack m1 (callstack_top m1))) (sint (callstack m2 (callstack_top m2)))
                 (sint (callstack (snd (execution_engine_process_ast_node (ast_op ast_div l r) m))
                         (callstack_top (snd (execution_engine_process_ast_node (ast_op ast_div l r) m))))))
       \<and> first_round 30 (''7 / 2'' @ [CHR 0x0A]) = Some (SUCCESS, Some 3)"
proof -
  let ?a = "callstack m1 (callstack_top m1)" and ?b = "callstack m2 (callstack_top m2)"
  from process_success_shape[OF assms(1,3,4)]
  have s1: "Suc (callstack_top m1) = callstack_top m" by simp
  then have t1: "callstack_top m1 \<le> MAX_CALLSTACK_DEPTH" using assms(3) by simp
  from process_success_shape[OF assms(2) t1 assms(5)]
  have s2: "Suc (callstack_top m2) = callstack_top m1"
    and keep: "\<forall>i \<ge> callstack_top m1. callstack m2 i = callstack m1 i" by simp_all
  have two: "callstack_top m2 + 2 \<le> MAX_CALLSTACK_DEPTH" using s1 s2 assms(3) by simp
  have left: "callstack m2 (Suc (callstack_top m2)) = ?a" using s2 keep by simp
  have node: "execution_engine_process_ast_node (ast_op ast_div l r) m = execution_engine_do_operation ast_div m2"
    using assms(4,5) by simp
  have zero: "?b = 0 \<longrightarrow> fst (execution_engine_process_ast_node (ast_op ast_div l r) m) = FAILURE DivisionByZero"
  proof
    assume "?b = 0"
    then have "operate ast_div (callstack m2 (Suc (callstack_top m2))) ?b = (FAILURE DivisionByZero, ?a)"
      using left by simp
    from do_operation_fail[OF two this] node show
      "fst (execution_engine_process_ast_node (ast_op ast_div l r) m) = FAILURE DivisionByZero" by simp
  qed
  have quot: "?b \<noteq> 0 \<and> \<not> (?a = INT_MIN \<and> ?b = - 1) \<longrightarrow>
            fst (execution_engine_process_ast_node (ast_op ast_div l r) m) = SUCCESS
            \<and> Suc (callstack_top (snd (execution_engine_process_ast_node (ast_op ast_div l r) m))) = callstack_top m
            \<and> truncated_quotient (sint ?a) (sint ?b)
                 (sint (callstack (snd (execution_engine_process_ast_node (ast_op ast_div l r) m))
                         (callstack_top (snd (execution_engine_process_ast_node (ast_op ast_div l r) m)))))"
  proof
    assume h: "?b \<noteq> 0 \<and> \<not> (?a = INT_MIN \<and> ?b = - 1)"
    then have op: "operate ast_div (callstack m2 (Suc (callstack_top m2))) ?b = (SUCCESS, c_div ?a ?b)"
      using left by auto
    have b0: "sint ?b \<noteq> 0"
    proof
      assume "sint ?b = 0"
      then have "word_of_int (sint ?b) = (0 :: cint)" by simp
      with h show False by simp
    qed
    have q: "truncated_quotient (sint ?a) (sint ?b) (sint (c_div ?a ?b))"
      using c_div_sint[of ?b ?a] h sdiv_int_truncated[OF b0, of "sint ?a"] by auto
    from do_operation_ok[OF two op] node s1 s2 q
    show "fst (execution_engine_process_ast_node (ast_op ast_div l r) m) = SUCCESS
            \<and> Suc (callstack_top (snd (execution_engine_process_ast_node (ast_op ast_div l r) m))) = callstack_top m
            \<and> truncated_quotient (sint ?a) (sint ?b)
                 (sint (callstack (snd (execution_engine_process_ast_node (ast_op ast_div l r) m))
                         (callstack_top (snd (execution_engine_process_ast_node (ast_op ast_div l r) m)))))"
      by simp
  qed
  have ex: "first_round 30 (''7 / 2'' @ [CHR 0x0A]) = Some (SUCCESS, Some 3)"
    by code_simp
  from zero quot ex show ?thesis by blast
qed

theorem division_semantics_witness:
  "fst (execution_engine_process_ast_node
          (ast_op ast_div (ast_op ast_sub (ast_num 0) (ast_num 7)) (ast_num 2)) initial_machine) = SUCCESS
   \<and> sint (callstack (snd (execution_engine_process_ast_node
          (ast_op ast_div (ast_op ast_sub (ast_num 0) (ast_num 7)) (ast_num 2)) initial_machine)) 31) = - 3
   \<and> truncated_quotient (- 7) 2 (- 3)
   \<and> fst (execution_engine_process_ast_node (ast_op ast_div (ast_num 5) (ast_num 0)) initial_machine)
       = FAILURE DivisionByZero"
proof -
  let ?l = "ast_op ast_sub (ast_num 0) (ast_num 7)"
  let ?m1 = "snd (execution_engine_process_ast_node ?l initial_machine)"
  let ?m2 = "snd (execution_engine_process_ast_node (ast_num 2) ?m1)"
  let ?n1 = "snd (execution_engine_process_ast_node (ast_num 5) initial_machine)"
  let ?n2 = "snd (execution_engine_process_ast_node (ast_num 0) ?n1)"
  note ev = execution_engine_do_operation_def callstack_is_full_def callstack_push_def
    callstack_pop_def initial_machine_def MAX_CALLSTACK_DEPTH_def INT_MIN_def
  have top: "callstack_top initial_machine \<le> MAX_CALLSTACK_DEPTH" by (simp add: ev)
  have l: "execution_engine_process_ast_node ?l initial_machine = (SUCCESS, ?m1)"
    by (simp add: ev prod_eq_iff)
  have r: "execution_engine_process_ast_node (ast_num 2) ?m1 = (SUCCESS, ?m2)"
    by (simp add: ev prod_eq_iff)
  have a: "callstack ?m1 (callstack_top ?m1) = - 7" and "callstack_top ?m2 = 30"
    and b: "callstack ?m2 (callstack_top ?m2) = 2"
    by (simp_all add: ev)
  have l': "execution_engine_process_ast_node (ast_num 5) initial_machine = (SUCCESS, ?n1)"
    by (simp add: ev prod_eq_iff)
  have r': "execution_engine_process_ast_node (ast_num 0) ?n1 = (SUCCESS, ?n2)"
    by (simp add: ev prod_eq_iff)
  have z: "callstack ?n2 (callstack_top ?n2) = 0"
    by (simp add: ev)
  from division_semantics[OF _ _ top l r] a b
  have 1: "fst (execution_engine_process_ast_node (ast_op ast_div ?l (ast_num 2)) initial_machine) = SUCCESS"
    by (simp add: INT_MIN_def)
  from division_semantics[OF _ _ top l' r'] z
  have 2: "fst (execution_engine_process_ast_node (ast_op ast_div (ast_num 5) (ast_num 0)) initial_machine)
       = FAILURE DivisionByZero"
    by simp
  have 3: "sint (callstack (snd (execution_engine_process_ast_node (ast_op ast_div ?l (ast_num 2)) initial_machine)) 31) = - 3"
    by (simp add: ev c_div_def signed_divide_int_def)
  have 4: "truncated_quotient (- 7) 2 (- 3)" by (simp add: truncated_quotient_def)
  from 1 2 3 4 show ?thesis by simp
qed

text \<open>
  The claim as written fails for \<open>(0 - 2147483647 - 1) / (0 - 1)\<close>: the right operand is -1,
  not 0, and the division yields no quotient.
\<close>

theorem division_semantics_counterexample:
  "fst (snd (execution_engine (ast_op ast_sub (ast_op ast_sub (ast_num 0) (ast_num 2147483647)) (ast_num 1))
        initial_machine)) = Some INT_MIN
   \<and> fst (snd (execution_engine (ast_op ast_sub (ast_num 0) (ast_num 1)) initial_machine)) = Some (- 1)
   \<and> fst (execution_engine
        (ast_op ast_div (ast_op ast_sub (ast_op ast_sub (ast_num 0) (ast_num 2147483647)) (ast_num 1))
                        (ast_op ast_sub (ast_num 0) (ast_num 1))) initial_machine)
       = ABORT DivisionOverflow
   \<and> first_round 40 (''(0 - 2147483647 - 1) / (0 - 1)'' @ [CHR 0x0A]) = Some (ABORT DivisionOverflow, None)"
proof -
  note ev = execution_engine_unfold execution_engine_do_operation_def callstack_is_full_def callstack_push_def
    callstack_pop_def callstack_is_empty_def initial_machine_def MAX_CALLSTACK_DEPTH_def INT_MIN_def
  have 1: "fst (snd (execution_engine (ast_op ast_sub (ast_op ast_sub (ast_num 0) (ast_num 2147483647)) (ast_num 1))
        initial_machine)) = Some INT_MIN"
    by (simp add: ev)
  have 2: "fst (snd (execution_engine (ast_op ast_sub (ast_num 0) (ast_num 1)) initial_machine)) = Some (- 1)"
    by (simp add: ev)
  have 3: "fst (execution_engine
        (ast_op ast_div (ast_op ast_sub (ast_op ast_sub (ast_num 0) (ast_num 2147483647)) (ast_num 1))
                        (ast_op ast_sub (ast_num 0) (ast_num 1))) initial_machine)
       = ABORT DivisionOverflow"
    by (simp add: ev)
  have 4: "first_round 40 (''(0 - 2147483647 - 1) / (0 - 1)'' @ [CHR 0x0A]) = Some (ABORT DivisionOverflow, None)"
    by code_simp
  from 1 2 3 4 show ?thesis by simp
qed

section \<open>Properties of the parser and of the pipeline\<close>

lemmas parse_defs = parse_token_stream_into_ast_def parser_parse_expression_def
  parser_parse_add_expression_def parser_register_token_stream_def parser_get_next_token_def
  number_token_def operator_token_def token_new_def

text \<open>More fuel never changes what a call of \<open>descend\<close> returns.\<close>

lemma descend_Suc:
  "descend pr n r t p = Some res \<Longrightarrow> descend pr (Suc n) r t p = Some res"
proof (induction n arbitrary: pr r t p res)
  case 0
  then show ?case by simp
next
  case (Suc n)
  note IH = Suc.IH
  show ?case
  proof (cases pr)
    case add_expression
    with Suc.prems obtain r1 t1 p1 where
      a: "descend sub_expression n r t p = Some (r1, t1, p1)" and
      b: "descend add_expression_p n r1 t1 p1 = Some res"
      by (auto split: option.splits)
    show ?thesis unfolding add_expression
      by (subst descend.simps) (simp add: IH[OF a] IH[OF b] del: descend.simps)
  next
    case sub_expression
    with Suc.prems obtain r1 t1 p1 where
      a: "descend mul_expression n r t p = Some (r1, t1, p1)" and
      b: "descend sub_expression_p n r1 t1 p1 = Some res"
      by (auto split: option.splits)
    show ?thesis unfolding sub_expression
      by (subst descend.simps) (simp add: IH[OF a] IH[OF b] del: descend.simps)
  next
    case mul_expression
    with Suc.prems obtain r1 t1 p1 where
      a: "descend div_expression n r t p = Some (r1, t1, p1)" and
      b: "descend mul_expression_p n r1 t1 p1 = Some res"
      by (auto split: option.splits)
    show ?thesis unfolding mul_expression
      by (subst descend.simps) (simp add: IH[OF a] IH[OF b] del: descend.simps)
  next
    case div_expression
    with Suc.prems obtain r1 t1 p1 where
      a: "descend unit_expression n r t p = Some (r1, t1, p1)" and
      b: "descend div_expression_p n r1 t1 p1 = Some res"
      by (auto split: option.splits)
    show ?thesis unfolding div_expression
      by (subst descend.simps) (simp add: IH[OF a] IH[OF b] del: descend.simps)
  next
    case add_expression_p
    show ?thesis
    proof (cases "parser_active_token p")
      case None
      with Suc.prems add_expression_p show ?thesis by simp
    next
      case (Some x)
      show ?thesis
      proof (cases "type x = token_plus \<and> r = SUCCESS")
        case False
        with Suc.prems add_expression_p Some show ?thesis by auto
      next
        case True
        with Suc.prems add_expression_p Some obtain r1 c1 p1 where
          a: "descend sub_expression n SUCCESS NULL (parser_get_next_token p) = Some (r1, c1, p1)"
          by (auto split: option.splits)
        show ?thesis
        proof (cases r1)
          case SUCCESS
          with Suc.prems add_expression_p Some True a
          have b: "descend add_expression_p n SUCCESS (ast_op ast_add t c1) p1 = Some res" by simp
          show ?thesis unfolding add_expression_p
            by (subst descend.simps) (simp add: Some True IH[OF a] IH[OF b] SUCCESS del: descend.simps)
        next
          case (FAILURE e)
          with Suc.prems add_expression_p Some True a have "res = (FAILURE e, t, p1)" by simp
          then show ?thesis unfolding add_expression_p
            by (subst descend.simps) (simp add: Some True IH[OF a] FAILURE del: descend.simps)
        next
          case (ABORT f)
          with Suc.prems add_expression_p Some True a have "res = (ABORT f, t, p1)" by simp
          then show ?thesis unfolding add_expression_p
            by (subst descend.simps) (simp add: Some True IH[OF a] ABORT del: descend.simps)
        qed
      qed
    qed
  next
    case sub_expression_p
    show ?thesis
    proof (cases "parser_active_token p")
      case None
      with Suc.prems sub_expression_p show ?thesis by simp
    next
      case (Some x)
      show ?thesis
      proof (cases "type x = token_minus \<and> r = SUCCESS")
        case False
        with Suc.prems sub_expression_p Some show ?thesis by auto
      next
        case True
        with Suc.prems sub_expression_p Some obtain r1 c1 p1 where
          a: "descend mul_expression n SUCCESS NULL (parser_get_next_token p) = Some (r1, c1, p1)"
          by (auto split: option.splits)
        show ?thesis
        proof (cases r1)
          case SUCCESS
          with Suc.prems sub_expression_p Some True a
          have b: "descend sub_expression_p n SUCCESS (ast_op ast_sub t c1) p1 = Some res" by simp
          show ?thesis unfolding sub_expression_p
            by (subst descend.simps) (simp add: Some True IH[OF a] IH[OF b] SUCCESS del: descend.simps)
        next
          case (FAILURE e)
          with Suc.prems sub_expression_p Some True a have "res = (FAILURE e, t, p1)" by simp
          then show ?thesis unfolding sub_expression_p
            by (subst descend.simps) (simp add: Some True IH[OF a] FAILURE del: descend.simps)
        next
          case (ABORT f)
          with Suc.prems sub_expression_p Some True a have "res = (ABORT f, t, p1)" by simp
          then show ?thesis unfolding sub_expression_p
            by (subst descend.simps) (simp add: Some True IH[OF a] ABORT del: descend.simps)
        qed
      qed
    qed
  next
    case mul_expression_p
    show ?thesis
    proof (cases "parser_active_token p")
      case None
      with Suc.prems mul_expression_p show ?thesis by simp
    next
      case (Some x)
      show ?thesis
      proof (cases "type x = token_times \<and> r = SUCCESS")
        case False
        with Suc.prems mul_expression_p Some show ?thesis by auto
      next
        case True
        with Suc.prems mul_expression_p Some obtain r1 c1 p1 where
          a: "descend div_expression n SUCCESS NULL (parser_get_next_token p) = Some (r1, c1, p1)"
          by (auto split: option.splits)
        show ?thesis
        proof (cases r1)
          case SUCCESS
          with Suc.prems mul_expression_p Some True a
          have b: "descend mul_expression_p n SUCCESS (ast_op ast_mul t c1) p1 = Some res" by simp
          show ?thesis unfolding mul_expression_p
            by (subst descend.simps) (simp add: Some True IH[OF a] IH[OF b] SUCCESS del: descend.simps)
        next
          case (FAILURE e)
          with Suc.prems mul_expression_p Some True a have "res = (FAILURE e, t, p1)" by simp
          then show ?thesis unfolding mul_expression_p
            by (subst descend.simps) (simp add: Some True IH[OF a] FAILURE del: descend.simps)
        next
          case (ABORT f)
          with Suc.prems mul_expression_p Some True a have "res = (ABORT f, t, p1)" by simp
          then show ?thesis unfolding mul_expression_p
            by (subst descend.simps) (simp add: Some True IH[OF a] ABORT del: descend.simps)
        qed
      qed
    qed
  next
    case div_expression_p
    show ?thesis
    proof (cases "parser_active_token p")
      case None
      with Suc.prems div_expression_p show ?thesis by simp
    next
      case (Some x)
      show ?thesis
      proof (cases "type x = token_divide \<and> r = SUCCESS")
        case False
        with Suc.prems div_expression_p Some show ?thesis by auto
      next
        case True
        with Suc.prems div_expression_p Some obtain r1 c1 p1 where
          a: "descend unit_expression n SUCCESS NULL (parser_get_next_token p) = Some (r1, c1, p1)"
          by (auto split: option.splits)
        show ?thesis
        proof (cases r1)
          case SUCCESS
          with Suc.prems div_expression_p Some True a
          have b: "descend div_expression_p n SUCCESS (ast_op ast_div t c1) p1 = Some res" by simp
          show ?thesis unfolding div_expression_p
            by (subst descend.simps) (simp add: Some True IH[OF a] IH[OF b] SUCCESS del: descend.simps)
        next
          case (FAILURE e)
          with Suc.prems div_expression_p Some True a have "res = (FAILURE e, t, p1)" by simp
          then show ?thesis unfolding div_expression_p
            by (subst descend.simps) (simp add: Some True IH[OF a] FAILURE del: descend.simps)
        next
          case (ABORT f)
          with Suc.prems div_expression_p Some True a have "res = (ABORT f, t, p1)" by simp
          then show ?thesis unfolding div_expression_p
            by (subst descend.simps) (simp add: Some True IH[OF a] ABORT del: descend.simps)
        qed
      qed
    qed
  next
    case unit_expression
    show ?thesis
    proof (cases "parser_active_token p")
      case None
      with Suc.prems unit_expression show ?thesis by simp
    next
      case (Some x)
      show ?thesis
      proof (cases "type x = token_bracket_open")
        case False
        with Suc.prems unit_expression Some show ?thesis by auto
      next
        case True
        with Suc.prems unit_expression Some obtain r1 t1 p1 where
          a: "descend add_expression n SUCCESS t (parser_get_next_token p) = Some (r1, t1, p1)"
          by (auto split: option.splits)
        from Suc.prems unit_expression Some True a
        have "res = (case r1 of
                    SUCCESS \<Rightarrow>
                      (case parser_active_token p1 of
                         None \<Rightarrow> (ABORT NullPointer, t1, p1)
                       | Some t1' \<Rightarrow>
                           if type t1' \<noteq> token_bracket_close
                           then (FAILURE ExpectedClosingBracket, t1, p1)
                           else (SUCCESS, t1, parser_get_next_token p1))
                  | FAILURE e \<Rightarrow> (FAILURE e, t1, p1)
                  | ABORT f \<Rightarrow> (ABORT f, t1, p1))"
          by (auto split: status.splits option.splits)
        then show ?thesis unfolding unit_expression
          by (subst descend.simps)
             (simp add: Some True IH[OF a] del: descend.simps split: status.splits option.splits)
      qed
    qed
  qed
qed

lemma descend_mono:
  "descend pr n r t p = Some res \<Longrightarrow> n \<le> m \<Longrightarrow> descend pr m r t p = Some res"
  by (induction m) (auto simp: le_Suc_eq dest: descend_Suc simp del: descend.simps)

lemma cursor_simps [simp]:
  "parser_active_token (cursor (x # xs)) = Some x"
  "parser_get_next_token (cursor (x # y # ys)) = cursor (y # ys)"
  "parser_get_next_token (cursor [x]) = cursor [x]"
  by (simp_all add: cursor_def parser_get_next_token_def)

lemma level_cases:
  assumes "L < 4"
  obtains "L = 0" | "L = Suc 0" | "L = Suc (Suc 0)" | "L = Suc (Suc (Suc 0))"
  using assms by (auto simp: numeral_eq_Suc less_Suc_eq)

lemma returns_seq:
  assumes "L < 4"
    and "returns (production_at (Suc L)) r t p (r1, t1, p1)"
    and "returns (loop_at L) r1 t1 p1 res"
  shows "returns (production_at L) r t p res"
proof -
  from assms(2) obtain n1 where a: "descend (production_at (Suc L)) n1 r t p = Some (r1, t1, p1)"
    by (auto simp: returns_def)
  from assms(3) obtain n2 where b: "descend (loop_at L) n2 r1 t1 p1 = Some res"
    by (auto simp: returns_def)
  let ?n = "max n1 n2"
  note a' = descend_mono[OF a, of ?n] and b' = descend_mono[OF b, of ?n]
  from assms(1) have "descend (production_at L) (Suc ?n) r t p = Some res"
  proof (cases rule: level_cases)
    case 1 with a' b' show ?thesis by (simp add: numeral_eq_Suc)
  next
    case 2 with a' b' show ?thesis by (simp add: numeral_eq_Suc)
  next
    case 3 with a' b' show ?thesis by (simp add: numeral_eq_Suc)
  next
    case 4 with a' b' show ?thesis by (simp add: numeral_eq_Suc)
  qed
  then show ?thesis by (auto simp: returns_def)
qed

lemma token_level_loop:
  "L < 4 \<Longrightarrow> token_level k = Some L \<longleftrightarrow>
     k = (case L of 0 \<Rightarrow> token_plus | Suc 0 \<Rightarrow> token_minus | Suc (Suc 0) \<Rightarrow> token_times | _ \<Rightarrow> token_divide)"
  by (erule level_cases; cases k; simp)

lemma returns_loop_exit:
  assumes "L < 4" and "parser_active_token p = Some x" and "token_level (type x) \<noteq> Some L"
  shows "returns (loop_at L) r t p (r, t, p)"
proof -
  from assms(1) have "descend (loop_at L) (Suc 0) r t p = Some (r, t, p)"
  proof (cases rule: level_cases)
    case 1 with assms(2,3) show ?thesis by (cases "type x") auto
  next
    case 2 with assms(2,3) show ?thesis by (cases "type x") auto
  next
    case 3 with assms(2,3) show ?thesis by (cases "type x") auto
  next
    case 4 with assms(2,3) show ?thesis by (cases "type x") auto
  qed
  then show ?thesis unfolding returns_def by blast
qed

lemma returns_loop_step:
  assumes "level k = L" and "parser_active_token p = Some x" and "type x = operator_of k"
    and "returns (production_at (Suc L)) SUCCESS NULL (parser_get_next_token p) (SUCCESS, child, p1)"
    and "returns (loop_at L) SUCCESS (ast_op k t child) p1 res"
  shows "returns (loop_at L) SUCCESS t p res"
proof -
  from assms(4) obtain n1 where
    a: "descend (production_at (Suc L)) n1 SUCCESS NULL (parser_get_next_token p) = Some (SUCCESS, child, p1)"
    by (auto simp: returns_def)
  from assms(5) obtain n2 where b: "descend (loop_at L) n2 SUCCESS (ast_op k t child) p1 = Some res"
    by (auto simp: returns_def)
  let ?n = "max n1 n2"
  note a' = descend_mono[OF a, of ?n] and b' = descend_mono[OF b, of ?n]
  have "descend (loop_at L) (Suc ?n) SUCCESS t p = Some res"
  proof (cases k)
    case ast_add with assms(1-3) a' b' show ?thesis by (auto simp: eval_nat_numeral)
  next
    case ast_sub with assms(1-3) a' b' show ?thesis by (auto simp: eval_nat_numeral)
  next
    case ast_mul with assms(1-3) a' b' show ?thesis by (auto simp: eval_nat_numeral)
  next
    case ast_div with assms(1-3) a' b' show ?thesis by (auto simp: eval_nat_numeral)
  qed
  then show ?thesis unfolding returns_def by blast
qed

lemma returns_unit_number:
  assumes "parser_active_token p = Some (number_token s)"
  shows "returns unit_expression r t p (SUCCESS, ast_num (str_to_int s), parser_get_next_token p)"
proof -
  from assms have "descend unit_expression (Suc 0) r t p
      = Some (SUCCESS, ast_num (str_to_int s), parser_get_next_token p)"
    by (simp add: number_token_def token_new_def)
  then show ?thesis unfolding returns_def by blast
qed

lemma returns_unit_bracket:
  assumes "parser_active_token p = Some (operator_token token_bracket_open)"
    and "returns add_expression SUCCESS t (parser_get_next_token p) (SUCCESS, t1, p1)"
    and "parser_active_token p1 = Some (operator_token token_bracket_close)"
  shows "returns unit_expression r t p (SUCCESS, t1, parser_get_next_token p1)"
proof -
  from assms(2) obtain n where
    "descend add_expression n SUCCESS t (parser_get_next_token p) = Some (SUCCESS, t1, p1)"
    by (auto simp: returns_def)
  with assms(1,3) have "descend unit_expression (Suc n) r t p = Some (SUCCESS, t1, parser_get_next_token p1)"
    by (simp add: operator_token_def token_new_def)
  then show ?thesis unfolding returns_def by blast
qed

lemma cursor_step: "ts \<noteq> [] \<Longrightarrow> parser_get_next_token (cursor (a # ts)) = cursor ts"
  by (cases ts) simp_all

lemma quiet_mono: "quiet L x \<Longrightarrow> L \<le> M \<Longrightarrow> quiet M x"
  by (auto simp: quiet_def split: option.splits)

lemma quiet_not_level: "quiet L x \<Longrightarrow> L < M \<Longrightarrow> token_level (type x) \<noteq> Some M"
  by (auto simp: quiet_def)

lemma level_less_4: "level k < 4"
  by (cases k) simp_all

lemma operator_token_facts:
  "type (operator_token j) = j"
  "token_level (operator_of k) = Some (level k)"
  "quiet (level k) (operator_token (operator_of k))"
  "quiet L (operator_token token_bracket_close)"
  "quiet L (operator_token token_end_of_expression)"
  by (cases k; simp add: operator_token_def token_new_def quiet_def)+

lemma production_at_4: "production_at 4 = unit_expression"
  by (simp add: eval_nat_numeral)

lemma returns_lift:
  assumes "L < M" and "M \<le> 4" and "quiet L x"
    and "returns (production_at M) r0 t0 p0 (SUCCESS, t, cursor (x # xs))"
    and "continue L t (cursor (x # xs)) res"
  shows "returns (production_at L) r0 t0 p0 res"
  using assms
proof (induction M)
  case 0
  then show ?case by simp
next
  case (Suc M)
  show ?case
  proof (cases "L = M")
    case True
    with Suc.prems have "L < 4" by simp
    with Suc.prems(5) have "returns (loop_at L) SUCCESS t (cursor (x # xs)) res"
      by (simp add: continue_def)
    with \<open>L < 4\<close> Suc.prems(4) True show ?thesis by (auto intro: returns_seq)
  next
    case False
    with Suc.prems have lt: "L < M" and m4: "M < 4" by simp_all
    have "returns (loop_at M) SUCCESS t (cursor (x # xs)) (SUCCESS, t, cursor (x # xs))"
      using m4 quiet_not_level[OF Suc.prems(3) lt] by (intro returns_loop_exit) simp_all
    with m4 Suc.prems(4) have "returns (production_at M) r0 t0 p0 (SUCCESS, t, cursor (x # xs))"
      by (auto intro: returns_seq)
    with Suc.IH[OF lt _ Suc.prems(3) _ Suc.prems(5)] m4 show ?thesis by simp
  qed
qed

lemma returns_unit_level:
  assumes "L \<le> 4" and "quiet L x"
    and "returns unit_expression r0 t0 p0 (SUCCESS, t, cursor (x # xs))"
    and "continue L t (cursor (x # xs)) res"
  shows "returns (production_at L) r0 t0 p0 res"
proof (cases "L = 4")
  case True
  with assms(3,4) show ?thesis by (simp add: continue_def production_at_4)
next
  case False
  with assms(1) have "L < 4" by simp
  from returns_lift[OF this _ assms(2) _ assms(4), of r0 t0 p0] assms(3)
  show ?thesis by (simp add: production_at_4)
qed

lemma round_trip_step:
  "L \<le> 4 \<Longrightarrow> quiet L x \<Longrightarrow> continue L (ast_of e) (cursor (x # xs)) res
   \<Longrightarrow> returns (production_at L) r0 t0 (cursor (tokens_of L e @ x # xs)) res"
proof (induction e arbitrary: L x xs res r0 t0)
  case (Number s)
  have "returns unit_expression r0 t0 (cursor (number_token s # x # xs))
          (SUCCESS, ast_num (str_to_int s), cursor (x # xs))"
    using returns_unit_number[of "cursor (number_token s # x # xs)" s r0 t0] by simp
  with Number.prems show ?case
    by (auto intro: returns_unit_level)
next
  case (Binary k l r)
  let ?c = "level k"
  let ?op = "operator_token (operator_of k)"
  let ?e = "ast_op k (ast_of l) (ast_of r)"
  note c4 = level_less_4[of k]
  have right: "returns (production_at (Suc ?c)) r1 NULL (cursor (tokens_of (Suc ?c) r @ y # ys))
                 (SUCCESS, ast_of r, cursor (y # ys))"
    if q: "quiet ?c y" for y ys r1
  proof -
    have "continue (Suc ?c) (ast_of r) (cursor (y # ys)) (SUCCESS, ast_of r, cursor (y # ys))"
    proof (cases "Suc ?c < 4")
      case True
      then show ?thesis
        using quiet_not_level[OF q, of "Suc ?c"]
        by (auto simp: continue_def intro!: returns_loop_exit)
    next
      case False
      then show ?thesis by (simp add: continue_def)
    qed
    moreover have "quiet (Suc ?c) y" using q by (rule quiet_mono) simp
    moreover have "Suc ?c \<le> 4" using c4 by simp
    ultimately show ?thesis by (intro Binary.IH(2))
  qed
  have step: "returns (loop_at ?c) SUCCESS (ast_of l) (cursor (?op # tokens_of (Suc ?c) r @ y # ys)) res'"
    if q: "quiet ?c y" and next_round: "returns (loop_at ?c) SUCCESS ?e (cursor (y # ys)) res'" for y ys res'
  proof (rule returns_loop_step[of k ?c _ ?op "ast_of r" "cursor (y # ys)"])
    show "level k = ?c" by simp
    show "parser_active_token (cursor (?op # tokens_of (Suc ?c) r @ y # ys)) = Some ?op" by simp
    show "type ?op = operator_of k" by (simp add: operator_token_facts)
    show "returns (production_at (Suc ?c)) SUCCESS NULL
            (parser_get_next_token (cursor (?op # tokens_of (Suc ?c) r @ y # ys)))
            (SUCCESS, ast_of r, cursor (y # ys))"
      using right[OF q, of SUCCESS ys] by (simp add: cursor_step)
    show "returns (loop_at ?c) SUCCESS ?e (cursor (y # ys)) res'" by (rule next_round)
  qed
  have plain: "returns (production_at M) r1 t1
                 (cursor ((tokens_of ?c l @ [?op] @ tokens_of (Suc ?c) r) @ y # ys)) res'"
    if le: "M \<le> ?c" and q: "quiet M y" and k: "continue M ?e (cursor (y # ys)) res'" for M y ys res' r1 t1
  proof (cases "M = ?c")
    case True
    from q True have qc: "quiet ?c y" by simp
    from k True c4 have "returns (loop_at ?c) SUCCESS ?e (cursor (y # ys)) res'"
      by (simp add: continue_def)
    from step[OF qc this] c4
    have "continue ?c (ast_of l) (cursor (?op # tokens_of (Suc ?c) r @ y # ys)) res'"
      by (simp add: continue_def)
    from Binary.IH(1)[OF _ _ this, of r1 t1] c4 True show ?thesis
      by (simp add: operator_token_facts)
  next
    case False
    with le have lt: "M < ?c" by simp
    have qc: "quiet ?c y" using q le by (rule quiet_mono)
    have "returns (loop_at ?c) SUCCESS ?e (cursor (y # ys)) (SUCCESS, ?e, cursor (y # ys))"
      using c4 quiet_not_level[OF q lt] by (intro returns_loop_exit) simp_all
    from step[OF qc this] c4
    have "continue ?c (ast_of l) (cursor (?op # tokens_of (Suc ?c) r @ y # ys)) (SUCCESS, ?e, cursor (y # ys))"
      by (simp add: continue_def)
    from Binary.IH(1)[OF _ _ this, of r1 t1] c4
    have "returns (production_at ?c) r1 t1
            (cursor ((tokens_of ?c l @ [?op] @ tokens_of (Suc ?c) r) @ y # ys)) (SUCCESS, ?e, cursor (y # ys))"
      by (simp add: operator_token_facts)
    from returns_lift[OF lt _ q this k] c4 show ?thesis by simp
  qed
  show ?case
  proof (cases "?c < L")
    case False
    then have "L \<le> ?c" by simp
    from plain[OF this Binary.prems(2), of xs res r0 t0] Binary.prems(3) False
    show ?thesis by simp
  next
    case True
    let ?close = "operator_token token_bracket_close"
    let ?open = "operator_token token_bracket_open"
    let ?body = "tokens_of ?c l @ [?op] @ tokens_of (Suc ?c) r"
    have "returns (loop_at 0) SUCCESS ?e (cursor (?close # x # xs)) (SUCCESS, ?e, cursor (?close # x # xs))"
      by (rule returns_loop_exit[where x = ?close]) (simp_all add: operator_token_facts)
    then have "continue 0 ?e (cursor (?close # x # xs)) (SUCCESS, ?e, cursor (?close # x # xs))"
      by (simp add: continue_def)
    from plain[OF _ _ this, of SUCCESS t0]
    have inner: "returns add_expression SUCCESS t0 (cursor (?body @ ?close # x # xs))
                   (SUCCESS, ?e, cursor (?close # x # xs))"
      by (simp add: operator_token_facts)
    have "returns unit_expression r0 t0 (cursor (?open # ?body @ ?close # x # xs))
            (SUCCESS, ?e, parser_get_next_token (cursor (?close # x # xs)))"
    proof (rule returns_unit_bracket)
      show "parser_active_token (cursor (?open # ?body @ ?close # x # xs)) = Some ?open" by simp
      show "returns add_expression SUCCESS t0
              (parser_get_next_token (cursor (?open # ?body @ ?close # x # xs)))
              (SUCCESS, ?e, cursor (?close # x # xs))"
        using inner by (simp add: cursor_step)
      show "parser_active_token (cursor (?close # x # xs)) = Some ?close" by simp
    qed
    then have "returns unit_expression r0 t0 (cursor (?open # ?body @ ?close # x # xs))
            (SUCCESS, ?e, cursor (x # xs))" by simp
    from returns_unit_level[OF Binary.prems(1,2) this] Binary.prems(3) True
    show ?thesis by simp
  qed
qed

lemma tokens_of_first:
  "\<exists>t ts. tokens_of L e = t # ts \<and> (type t = token_number \<or> type t = token_bracket_open)"
proof (induction e arbitrary: L)
  case (Number s)
  show ?case by (simp add: number_token_def token_new_def)
next
  case (Binary k l r)
  from Binary.IH(1)[of "level k"] obtain t ts where
    "tokens_of (level k) l = t # ts" "type t = token_number \<or> type t = token_bracket_open" by blast
  then show ?case by (auto simp: operator_token_facts)
qed

text \<open>
  Every expression, written with the brackets its operators need and no others, is parsed
  back into its own tree, with any fuel from some amount on.
\<close>

lemma round_trip:
  "\<exists>N. \<forall>k p. parse_token_stream_into_ast (N + k)
            (tokens_of 0 e @ [operator_token token_end_of_expression]) NULL p =
          Some (SUCCESS, ast_of e,
                \<lparr>parser_next_token = [],
                   parser_active_token = Some (operator_token token_end_of_expression)\<rparr>)"
proof -
  let ?eox = "operator_token token_end_of_expression"
  have "returns (loop_at 0) SUCCESS (ast_of e) (cursor [?eox]) (SUCCESS, ast_of e, cursor [?eox])"
    by (rule returns_loop_exit[where x = ?eox]) (simp_all add: operator_token_facts)
  then have "continue 0 (ast_of e) (cursor [?eox]) (SUCCESS, ast_of e, cursor [?eox])"
    by (simp add: continue_def)
  from round_trip_step[OF _ _ this, of SUCCESS NULL]
  have "returns add_expression SUCCESS NULL (cursor (tokens_of 0 e @ [?eox])) (SUCCESS, ast_of e, cursor [?eox])"
    by (simp add: operator_token_facts)
  then obtain N where N: "descend add_expression N SUCCESS NULL (cursor (tokens_of 0 e @ [?eox]))
      = Some (SUCCESS, ast_of e, cursor [?eox])"
    by (auto simp: returns_def)
  obtain t ts where first: "tokens_of 0 e = t # ts" "type t = token_number \<or> type t = token_bracket_open"
    using tokens_of_first by blast
  have "parse_token_stream_into_ast (N + k) (tokens_of 0 e @ [?eox]) NULL p =
          Some (SUCCESS, ast_of e, \<lparr>parser_next_token = [], parser_active_token = Some ?eox\<rparr>)" for k p
  proof -
    have start: "parser_get_next_token (parser_register_token_stream (tokens_of 0 e @ [?eox]) p)
        = cursor (tokens_of 0 e @ [?eox])"
      by (simp add: first parser_get_next_token_def parser_register_token_stream_def cursor_def)
    have run: "descend add_expression (N + k) SUCCESS NULL (cursor (tokens_of 0 e @ [?eox]))
      = Some (SUCCESS, ast_of e, cursor [?eox])"
      using descend_mono[OF N, of "N + k"] by simp
    have fin: "parser_get_next_token (cursor [?eox]) = \<lparr>parser_next_token = [], parser_active_token = Some ?eox\<rparr>"
      by (simp add: cursor_def parser_get_next_token_def)
    from first(2) have ne: "type t \<noteq> token_end_of_file" by auto
    show ?thesis
      unfolding parse_token_stream_into_ast_def start Let_def
      using run ne fin
      by (simp add: first cursor_def parser_parse_expression_def parser_parse_add_expression_def
          operator_token_facts del: descend.simps)
  qed
  then show ?thesis by blast
qed

lemma tokens_of_examples:
  "tokens_of 0 (Binary ast_sub (Number a) (Binary ast_mul (Number b) (Number c))) =
     [number_token a, operator_token token_minus, number_token b, operator_token token_times, number_token c]"
  "tokens_of 0 (Binary ast_mul (Binary ast_sub (Number a) (Number b)) (Number c)) =
     [operator_token token_bracket_open, number_token a, operator_token token_minus, number_token b,
      operator_token token_bracket_close, operator_token token_times, number_token c]"
  "tokens_of 0 (Binary ast_sub (Binary ast_sub (Number a) (Number b)) (Number c)) =
     [number_token a, operator_token token_minus, number_token b, operator_token token_minus, number_token c]"
  "tokens_of 0 (Binary ast_sub (Number a) (Binary ast_sub (Number b) (Number c))) =
     [number_token a, operator_token token_minus, operator_token token_bracket_open, number_token b,
      operator_token token_minus, number_token c, operator_token token_bracket_close]"
  by simp_all

text \<open>
  Claim C1. The line \<open>2 + 3 * 4\<close> goes through tokenizer, parser and evaluator to 14 and
  \<open>(2 + 3) * 4\<close> to 20. Every expression, of any length, written with brackets exactly
  around the operands whose operator is of a lower level than their place asks for, is
  parsed into its own tree: \<open>*\<close> and \<open>/\<close> without brackets end up below \<open>+\<close> and \<open>-\<close>, and
  a bracketed \<open>+\<close> or \<open>-\<close> ends up below \<open>*\<close> and \<open>/\<close>. For three numbers this is spelt out
  with a fixed amount of fuel, for each of \<open>+\<close>, \<open>-\<close> against each of \<open>*\<close>, \<open>/\<close> on either
  side and for a bracketed sum on either side of \<open>*\<close>.
\<close>

theorem operator_precedence:
  "first_round 30 (''2 + 3 * 4'' @ [CHR 0x0A]) = Some (SUCCESS, Some 14)
   \<and> first_round 30 (''(2 + 3) * 4'' @ [CHR 0x0A]) = Some (SUCCESS, Some 20)
   \<and> (\<exists>N. \<forall>k p. parse_token_stream_into_ast (N + k)
            (tokens_of 0 e @ [operator_token token_end_of_expression]) NULL p =
          Some (SUCCESS, ast_of e,
                \<lparr>parser_next_token = [],
                   parser_active_token = Some (operator_token token_end_of_expression)\<rparr>))
   \<and> parse_token_stream_into_ast (20 + n)
        [number_token a, operator_token token_plus, number_token b, operator_token token_times,
         number_token c, operator_token token_end_of_expression] NULL p =
      Some (SUCCESS,
            ast_op ast_add (ast_num (str_to_int a)) (ast_op ast_mul (ast_num (str_to_int b)) (ast_num (str_to_int c))),
            \<lparr>parser_next_token = [], parser_active_token = Some (operator_token token_end_of_expression)\<rparr>)
   \<and> parse_token_stream_into_ast (20 + n)
        [number_token a, operator_token token_times, number_token b, operator_token token_plus,
         number_token c, operator_token token_end_of_expression] NULL p =
      Some (SUCCESS,
            ast_op ast_add (ast_op ast_mul (ast_num (str_to_int a)) (ast_num (str_to_int b))) (ast_num (str_to_int c)),
            \<lparr>parser_next_token = [], parser_active_token = Some (operator_token token_end_of_expression)\<rparr>)
   \<and> parse_token_stream_into_ast (20 + n)
        [number_token a, operator_token token_minus, number_token b, operator_token token_divide,
         number_token c, operator_token token_end_of_expression] NULL p =
      Some (SUCCESS,
            ast_op ast_sub (ast_num (str_to_int a)) (ast_op ast_div (ast_num (str_to_int b)) (ast_num (str_to_int c))),
            \<lparr>parser_next_token = [], parser_active_token = Some (operator_token token_end_of_expression)\<rparr>)
   \<and> parse_token_stream_into_ast (20 + n)
        [number_token a, operator_token token_divide, number_token b, operator_token token_minus,
         number_token c, operator_token token_end_of_expression] NULL p =
      Some (SUCCESS,
            ast_op ast_sub (ast_op ast_div (ast_num (str_to_int a)) (ast_num (str_to_int b))) (ast_num (str_to_int c)),
            \<lparr>parser_next_token = [], parser_active_token = Some (operator_token token_end_of_expression)\<rparr>)
   \<and> parse_token_stream_into_ast (20 + n)
        [operator_token token_bracket_open, number_token a, operator_token token_plus, number_token b,
         operator_token token_bracket_close, operator_token token_times,
         number_token c, operator_token token_end_of_expression] NULL p =
      Some (SUCCESS,
            ast_op ast_mul (ast_op ast_add (ast_num (str_to_int a)) (ast_num (str_to_int b))) (ast_num (str_to_int c)),
            \<lparr>parser_next_token = [], parser_active_token = Some (operator_token token_end_of_expression)\<rparr>)
   \<and> parse_token_stream_into_ast (20 + n)
        [number_token a, operator_token token_plus, number_token b, operator_token token_divide, number_token c, operator_token token_end_of_expression] NULL p =
      Some (SUCCESS,
            ast_op ast_add (ast_num (str_to_int a)) (ast_op ast_div (ast_num (str_to_int b)) (ast_num (str_to_int c))),
            \<lparr>parser_next_token = [], parser_active_token = Some (operator_token token_end_of_expression)\<rparr>)
   \<and> parse_token_stream_into_ast (20 + n)
        [number_token a, operator_token token_divide, number_token b, operator_token token_plus, number_token c, operator_token token_end_of_expression] NULL p =
      Some (SUCCESS,
            ast_op ast_add (ast_op ast_div (ast_num (str_to_int a)) (ast_num (str_to_int b))) (ast_num (str_to_int c)),
            \<lparr>parser_next_token = [], parser_active_token = Some (operator_token token_end_of_expression)\<rparr>)
   \<and> parse_token_stream_into_ast (20 + n)
        [number_token a, operator_token token_minus, number_token b, operator_token token_times, number_token c, operator_token token_end_of_expression] NULL p =
      Some (SUCCESS,
            ast_op ast_sub (ast_num (str_to_int a)) (ast_op ast_mul (ast_num (str_to_int b)) (ast_num (str_to_int c))),
            \<lparr>parser_next_token = [], parser_active_token = Some (operator_token token_end_of_expression)\<rparr>)
   \<and> parse_token_stream_into_ast (20 + n)
        [number_token a, operator_token token_times, number_token b, operator_token token_minus, number_token c, operator_token token_end_of_expression] NULL p =
      Some (SUCCESS,
            ast_op ast_sub (ast_op ast_mul (ast_num (str_to_int a)) (ast_num (str_to_int b))) (ast_num (str_to_int c)),
            \<lparr>parser_next_token = [], parser_active_token = Some (operator_token token_end_of_expression)\<rparr>)
   \<and> parse_token_stream_into_ast (20 + n)
        [number_token a, operator_token token_times, operator_token token_bracket_open, number_token b, operator_token token_plus, number_token c, operator_token token_bracket_close, operator_token token_end_of_expression] NULL p =
      Some (SUCCESS,
            ast_op ast_mul (ast_num (str_to_int a)) (ast_op ast_add (ast_num (str_to_int b)) (ast_num (str_to_int c))),
            \<lparr>parser_next_token = [], parser_active_token = Some (operator_token token_end_of_expression)\<rparr>)"
proof (intro conjI)
  show "first_round 30 (''2 + 3 * 4'' @ [CHR 0x0A]) = Some (SUCCESS, Some 14)"
    by code_simp
  show "first_round 30 (''(2 + 3) * 4'' @ [CHR 0x0A]) = Some (SUCCESS, Some 20)"
    by code_simp
  show "\<exists>N. \<forall>k p. parse_token_stream_into_ast (N + k)
            (tokens_of 0 e @ [operator_token token_end_of_expression]) NULL p =
          Some (SUCCESS, ast_of e,
                \<lparr>parser_next_token = [],
                   parser_active_token = Some (operator_token token_end_of_expression)\<rparr>)"
    by (rule round_trip)
qed (simp_all add: parse_defs eval_nat_numeral)

text \<open>
  Claim C2. For any three numbers \<open>a\<close>, \<open>b\<close>, \<open>c\<close> the parser builds \<open>a - b - c\<close> as the tree
  of \<open>(a - b) - c\<close>, which is not the tree of \<open>a - (b - c)\<close>, and \<open>a / b / c\<close> as the tree
  of \<open>(a / b) / c\<close>; the line \<open>10 - 2 - 3\<close> evaluates to 5, not 11, and \<open>100 / 10 / 2\<close> to 5.
\<close>

theorem left_associativity:
  "parse_token_stream_into_ast (20 + n)
        [number_token a, operator_token token_minus, number_token b, operator_token token_minus,
         number_token c, operator_token token_end_of_expression] NULL p =
      Some (SUCCESS,
            ast_op ast_sub (ast_op ast_sub (ast_num (str_to_int a)) (ast_num (str_to_int b))) (ast_num (str_to_int c)),
            \<lparr>parser_next_token = [], parser_active_token = Some (operator_token token_end_of_expression)\<rparr>)
   \<and> ast_op ast_sub (ast_op ast_sub (ast_num (str_to_int a)) (ast_num (str_to_int b))) (ast_num (str_to_int c))
       \<noteq> ast_op ast_sub (ast_num (str_to_int a)) (ast_op ast_sub (ast_num (str_to_int b)) (ast_num (str_to_int c)))
   \<and> parse_token_stream_into_ast (20 + n)
        [number_token a, operator_token token_divide, number_token b, operator_token token_divide,
         number_token c, operator_token token_end_of_expression] NULL p =
      Some (SUCCESS,
            ast_op ast_div (ast_op ast_div (ast_num (str_to_int a)) (ast_num (str_to_int b))) (ast_num (str_to_int c)),
            \<lparr>parser_next_token = [], parser_active_token = Some (operator_token token_end_of_expression)\<rparr>)
   \<and> first_round 30 (''10 - 2 - 3'' @ [CHR 0x0A]) = Some (SUCCESS, Some 5)
   \<and> first_round 30 (''10 - 2 - 3'' @ [CHR 0x0A]) \<noteq> Some (SUCCESS, Some 11)
   \<and> first_round 30 (''100 / 10 / 2'' @ [CHR 0x0A]) = Some (SUCCESS, Some 5)"
proof -
  have 1: "first_round 30 (''10 - 2 - 3'' @ [CHR 0x0A]) = Some (SUCCESS, Some 5)"
    by code_simp
  have 2: "first_round 30 (''100 / 10 / 2'' @ [CHR 0x0A]) = Some (SUCCESS, Some 5)"
    by code_simp
  have 3: "parse_token_stream_into_ast (20 + n)
        [number_token a, operator_token token_minus, number_token b, operator_token token_minus,
         number_token c, operator_token token_end_of_expression] NULL p =
      Some (SUCCESS,
            ast_op ast_sub (ast_op ast_sub (ast_num (str_to_int a)) (ast_num (str_to_int b))) (ast_num (str_to_int c)),
            \<lparr>parser_next_token = [], parser_active_token = Some (operator_token token_end_of_expression)\<rparr>)"
    by (simp add: parse_defs eval_nat_numeral)
  have 4: "parse_token_stream_into_ast (20 + n)
        [number_token a, operator_token token_divide, number_token b, operator_token token_divide,
         number_token c, operator_token token_end_of_expression] NULL p =
      Some (SUCCESS,
            ast_op ast_div (ast_op ast_div (ast_num (str_to_int a)) (ast_num (str_to_int b))) (ast_num (str_to_int c)),
            \<lparr>parser_next_token = [], parser_active_token = Some (operator_token token_end_of_expression)\<rparr>)"
    by (simp add: parse_defs eval_nat_numeral)
  from 1 2 3 4 show ?thesis by simp
qed

text \<open>
  Claim C9. When the first token of the stream is the end-of-file token, the parse succeeds
  with any fuel and leaves the tree slot \<open>NULL\<close>; the evaluator on \<open>NULL\<close> prints nothing
  and succeeds; so a round of the loop on the end-of-file line prints nothing and succeeds.
\<close>

theorem empty_stream_noop:
  assumes "stream = t # ts" and "type t = token_end_of_file"
  shows "parse_token_stream_into_ast n stream NULL p =
           Some (SUCCESS, NULL, p\<lparr>parser_active_token := Some t, parser_next_token := ts\<rparr>)
       \<and> execution_engine NULL m = (SUCCESS, None, callstack_clear m)
       \<and> main_loop_body n \<lparr>source_file_line = [CHR 0xFF], source_file_line_occupied_size = 1\<rparr> p m =
           Some (SUCCESS, None,
                 p\<lparr>parser_active_token := Some (operator_token token_end_of_file), parser_next_token := []\<rparr>,
                 callstack_clear m)"
proof -
  have tok: "tokenize_source_line_and_add_to_list []
       \<lparr>source_file_line = [CHR 0xFF], source_file_line_occupied_size = 1\<rparr>
     = (SUCCESS, [operator_token token_end_of_file])"
    by (simp add: tokenize_source_line_and_add_to_list_def tokenize_loop.simps isspace_def switch_case_def
        operator_token_def)
  have 1: "\<And>s u us. s = u # us \<Longrightarrow> type u = token_end_of_file \<Longrightarrow>
        parse_token_stream_into_ast n s NULL p =
           Some (SUCCESS, NULL, p\<lparr>parser_active_token := Some u, parser_next_token := us\<rparr>)"
    by (simp add: parse_token_stream_into_ast_def parser_register_token_stream_def parser_get_next_token_def)
  have 2: "execution_engine NULL m = (SUCCESS, None, callstack_clear m)"
    by (simp add: execution_engine_unfold)
  have 3: "main_loop_body n \<lparr>source_file_line = [CHR 0xFF], source_file_line_occupied_size = 1\<rparr> p m =
           Some (SUCCESS, None,
                 p\<lparr>parser_active_token := Some (operator_token token_end_of_file), parser_next_token := []\<rparr>,
                 callstack_clear m)"
    unfolding main_loop_body_def tok
    using 1[of "[operator_token token_end_of_file]" "operator_token token_end_of_file" "[]"] 2
    by (simp add: operator_token_def token_new_def)
  from 1[OF assms] 2 3 show ?thesis by simp
qed

theorem empty_stream_noop_witness:
  "type (operator_token token_end_of_file) = token_end_of_file
   \<and> parse_token_stream_into_ast 0 [operator_token token_end_of_file] NULL initial_parser =
       Some (SUCCESS, NULL, \<lparr>parser_next_token = [], parser_active_token = Some (operator_token token_end_of_file)\<rparr>)
   \<and> execution_engine NULL initial_machine = (SUCCESS, None, initial_machine)"
proof -
  have h: "type (operator_token token_end_of_file) = token_end_of_file"
    by (simp add: operator_token_def token_new_def)
  from empty_stream_noop[OF refl h, of 0 "[]" initial_parser initial_machine] h
  show ?thesis by (simp add: initial_parser_def initial_machine_def callstack_clear_def)
qed

section \<open>Properties of the tokenizer and of number conversion\<close>

lemma isdigit_not_space: "isdigit c \<Longrightarrow> \<not> isspace c"
  by (auto simp: isdigit_def isspace_def)

lemma isdigit_not_NUL: "isdigit c \<Longrightarrow> c \<noteq> CHR 0x00"
  by (auto simp: isdigit_def)

lemma isdigit_default_case: "isdigit c \<Longrightarrow> switch_case c = None"
  unfolding isdigit_def switch_case_def by (elim disjE | simp)+

lemma digit_loop_run:
  assumes "\<forall>c \<in> set ds. isdigit c" and "\<not> isdigit x"
  shows "i < length ds \<Longrightarrow> digit_loop (ds @ x # rest) i n = Some (length ds, n + (length ds - Suc i))"
proof (induction "length ds - Suc i" arbitrary: i n)
  case 0
  then have i: "Suc i = length ds" by simp
  then have "(ds @ x # rest) ! Suc i = x" by (simp add: nth_append)
  with assms(2) i show ?case by (subst digit_loop.simps) simp
next
  case (Suc k)
  then have lt: "Suc i < length ds" by simp
  then have "(ds @ x # rest) ! Suc i = ds ! Suc i" by (simp add: nth_append)
  moreover from lt assms(1) have "isdigit (ds ! Suc i)" by simp
  moreover from Suc.hyps(2) have "k = length ds - Suc (Suc i)" by simp
  from Suc.hyps(1)[OF this lt, of "Suc n"]
  have "digit_loop (ds @ x # rest) (Suc i) (Suc n) = Some (length ds, Suc n + (length ds - Suc (Suc i)))" .
  ultimately show ?case using lt by (subst digit_loop.simps) simp
qed

lemma strndup_run:
  "\<forall>c \<in> set ds. c \<noteq> CHR 0x00 \<Longrightarrow> strndup (ds @ rest) (length ds) = Some ds"
  by (induction ds) simp_all

text \<open>
  A line that holds one number and its newline: the tokenizer gives the number token with
  exactly these digits, and the end-of-expression token, whatever lies behind the line in
  the array.
\<close>

lemma number_alone:
  assumes "ds \<noteq> []" and "\<forall>c \<in> set ds. isdigit c"
  shows "tokenize_source_line_and_add_to_list []
           \<lparr>source_file_line = ds @ CHR 0x0A # rest, source_file_line_occupied_size = Suc (length ds)\<rparr>
         = (SUCCESS, [number_token ds, operator_token token_end_of_expression])"
proof -
  let ?line = "ds @ CHR 0x0A # rest"
  let ?src = "\<lparr>source_file_line = ?line, source_file_line_occupied_size = Suc (length ds)\<rparr>"
  from assms have d0: "isdigit (?line ! 0)" by (cases ds) auto
  have nl: "\<not> isdigit (CHR 0x0A)" by (simp add: isdigit_def)
  from assms(1) have pos: "0 < length ds" by simp
  have scan: "digit_loop ?line 0 1 = Some (length ds, length ds)"
    using digit_loop_run[OF assms(2) nl pos, of rest 1] pos by simp
  have dup: "strndup (drop 0 ?line) (length ds) = Some ds"
    using strndup_run[of ds "CHR 0x0A # rest"] assms(2) isdigit_not_NUL by auto
  have last: "tokenize_loop ?src (Suc (length ds)) (length ds) l = (SUCCESS, l)" for l
    by (subst tokenize_loop.simps) simp
  have eox: "tokenize_loop ?src (length ds) (length ds) l
      = (SUCCESS, l @ [operator_token token_end_of_expression])" for l
    by (subst tokenize_loop.simps) (simp add: last switch_case_def operator_token_def nth_append)
  have "tokenize_loop ?src 0 1 [] = tokenize_loop ?src (length ds) (length ds) [number_token ds]"
    using d0 isdigit_not_space[OF d0] isdigit_default_case[OF d0] scan dup pos
    by (subst tokenize_loop.simps) (simp add: number_token_def)
  then show ?thesis
    by (simp add: tokenize_source_line_and_add_to_list_def eox)
qed

lemma digit_loop_counts:
  "digit_loop line i n = Some (i', n') \<Longrightarrow> n \<le> n'"
proof (induction line i n rule: digit_loop.induct)
  case (1 line i n)
  from "1.prems" show ?case
    by (subst (asm) digit_loop.simps) (auto split: if_splits dest: "1.IH")
qed

lemma strndup_head:
  assumes "strndup (c # xs) k = Some s" and "0 < k" and "c \<noteq> CHR 0x00"
  shows "\<exists>s'. s = c # s'"
  using assms by (cases k) auto

text \<open>
  Every lexeme the tokenizer makes starts with the digit that began its number, because
  \<open>lexeme_length\<close> never falls below 1.
\<close>

lemma tokenize_loop_lexemes:
  assumes "tokenize_loop src i n list = (st, out)" and "0 < n" and "list_all number_lexeme_ok list"
  shows "list_all number_lexeme_ok out"
  using assms
proof (induction src i n list arbitrary: st out rule: tokenize_loop.induct)
  case (1 src i n list)
  let ?line = "source_file_line src"
  let ?c = "?line ! i"
  note run = "1.prems"(1)
  show ?case
  proof (cases "i < source_file_line_occupied_size src \<and> \<not> length ?line \<le> i")
    case False
    then have "tokenize_loop src i n list = (SUCCESS, list) \<or> tokenize_loop src i n list = (ABORT OutOfRange, list)"
      by (subst tokenize_loop.simps, subst tokenize_loop.simps) auto
    with run "1.prems"(3) show ?thesis by auto
  next
    case True
    then have r1: "i < source_file_line_occupied_size src" and r2: "\<not> length ?line \<le> i" by simp_all
    show ?thesis
    proof (cases "isspace ?c \<and> ?c \<noteq> CHR 0x0A")
      case skip: True
      have "tokenize_loop src i n list = tokenize_loop src (Suc i) n list"
        by (subst tokenize_loop.simps) (simp add: r1 r2 skip Let_def)
      with run have "tokenize_loop src (Suc i) n list = (st, out)" by simp
      from "1.IH"(1)[OF r1 r2 refl skip this "1.prems"(2,3)] show ?thesis .
    next
      case not_skipped: False
      then have ns: "(isspace ?c \<and> ?c \<noteq> CHR 0x0A) = False" by simp
      show ?thesis
      proof (cases "switch_case ?c")
        case (Some k)
        have "tokenize_loop src i n list = tokenize_loop src (Suc i) n (list @ [token_new\<lparr>type := k\<rparr>])"
          by (subst tokenize_loop.simps) (simp add: r1 r2 ns Some Let_def)
        with run have next_run: "tokenize_loop src (Suc i) n (list @ [token_new\<lparr>type := k\<rparr>]) = (st, out)"
          by simp
        have "switch_case ?c \<noteq> Some token_number"
          by (simp add: switch_case_def)
        with Some have "k \<noteq> token_number" by simp
        then have "number_lexeme_ok (token_new\<lparr>type := k\<rparr>)"
          by (simp add: number_lexeme_ok_def)
        with "1.prems"(3) have ok: "list_all number_lexeme_ok (list @ [token_new\<lparr>type := k\<rparr>])"
          by simp
        from "1.IH"(3)[OF r1 r2 refl not_skipped Some next_run "1.prems"(2) ok] show ?thesis .
      next
        case None
        show ?thesis
        proof (cases "isdigit ?c")
          case False
          have "snd (tokenize_loop src i n list) = list"
            by (subst tokenize_loop.simps) (simp add: r1 r2 ns None False Let_def)
          with run "1.prems"(3) show ?thesis by simp
        next
          case digit: True
          then have nd: "(\<not> isdigit ?c) = False" by simp
          show ?thesis
          proof (cases "digit_loop ?line i n")
            case no_scan: None
            have "snd (tokenize_loop src i n list) = list"
              by (subst tokenize_loop.simps) (simp add: r1 r2 ns None digit no_scan Let_def)
            with run "1.prems"(3) show ?thesis by simp
          next
            case (Some res)
            then obtain i' n' where scan: "digit_loop ?line i n = Some (i', n')" by (cases res) auto
            show ?thesis
            proof (cases "strndup (drop i ?line) n'")
              case no_dup: None
              have "snd (tokenize_loop src i n list) = list"
                by (subst tokenize_loop.simps) (simp add: r1 r2 ns None digit scan no_dup Let_def)
              with run "1.prems"(3) show ?thesis by simp
            next
              case dup: (Some s)
              have "tokenize_loop src i n list =
                  tokenize_loop src i' n' (list @ [token_new\<lparr>lexeme := Some s, type := token_number\<rparr>])"
                by (subst tokenize_loop.simps) (simp add: r1 r2 ns None digit scan dup Let_def)
              with run
              have next_run: "tokenize_loop src i' n' (list @ [token_new\<lparr>lexeme := Some s, type := token_number\<rparr>]) = (st, out)"
                by simp
              from digit_loop_counts[OF scan] "1.prems"(2) have pos: "0 < n'" by simp
              from r2 have "drop i ?line = ?c # drop (Suc i) ?line"
                by (simp add: Cons_nth_drop_Suc)
              with dup strndup_head[of ?c "drop (Suc i) ?line" n' s] pos isdigit_not_NUL[OF digit]
              obtain s' where "s = ?c # s'" by auto
              with digit have "number_lexeme_ok (token_new\<lparr>lexeme := Some s, type := token_number\<rparr>)"
                by (simp add: number_lexeme_ok_def)
              with "1.prems"(3)
              have ok: "list_all number_lexeme_ok (list @ [token_new\<lparr>lexeme := Some s, type := token_number\<rparr>])"
                by simp
              have nd': "\<not> \<not> isdigit ?c" using digit by simp
              from "1.IH"(2)[OF r1 r2 refl not_skipped None nd' scan refl dup next_run pos ok]
              show ?thesis .
            qed
          qed
        qed
      qed
    qed
  qed
qed

lemma tokenizer_lexemes:
  "tokenize_source_line_and_add_to_list [] src = (st, out) \<Longrightarrow> list_all number_lexeme_ok out"
  unfolding tokenize_source_line_and_add_to_list_def
  by (erule tokenize_loop_lexemes) simp_all

lemma digit_value_nonneg: "isdigit c \<Longrightarrow> 0 \<le> digit_value c"
  by (auto simp: isdigit_def digit_value_def)

lemma foldl_decimal_nonneg:
  "0 \<le> acc \<Longrightarrow> \<forall>c \<in> set ds. isdigit c \<Longrightarrow> 0 \<le> foldl (\<lambda>acc c. 10 * acc + digit_value c) acc ds"
proof (induction ds arbitrary: acc)
  case Nil
  then show ?case by simp
next
  case (Cons c ds)
  from Cons.prems have "0 \<le> 10 * acc + digit_value c"
    using digit_value_nonneg[of c] by simp
  with Cons show ?case by simp
qed

lemma decimal_nonneg: "0 \<le> decimal (takeWhile isdigit s)"
  unfolding decimal_def by (rule foldl_decimal_nonneg) (auto dest: set_takeWhileD)

lemma strtol_digit:
  assumes "s \<noteq> []" and "isdigit (hd s)"
  shows "strtol s = min LONG_MAX (decimal (takeWhile isdigit s))"
proof -
  from assms obtain c rest where s: "s = c # rest" and c: "isdigit c" by (cases s) auto
  from c have "\<not> isspace c" "c \<noteq> CHR ''-''" "c \<noteq> CHR ''+''"
    by (auto simp: isdigit_def isspace_def)
  then show ?thesis by (simp add: strtol_def s)
qed

text \<open>
  Claim C10, amended. For a number token whose lexeme starts with a digit (as every lexeme
  the tokenizer makes does), \<open>parser_parse_unit_expression\<close> stores in the leaf the base-10
  value of the longest leading digit run of the lexeme, clamped to \<open>LONG_MAX\<close> and cut to
  32 bits; below \<open>2 ^ 31\<close> that is the value itself; and two lexemes with the same leading
  digit run give the same leaf value, whatever follows the run.
\<close>

theorem number_value:
  assumes "parser_active_token p = Some t" and "type t = token_number" and "lexeme t = Some s"
    and "s \<noteq> []" and "isdigit (hd s)"
  shows "parser_parse_unit_expression (Suc n) tree p =
           Some (SUCCESS, ast_num (str_to_int s), parser_get_next_token p)
       \<and> str_to_int s = word_of_int (min LONG_MAX (decimal (takeWhile isdigit s)))
       \<and> (decimal (takeWhile isdigit s) < 2 ^ 31 \<longrightarrow> sint (str_to_int s) = decimal (takeWhile isdigit s))
       \<and> (\<forall>s'. takeWhile isdigit s' = takeWhile isdigit s \<longrightarrow> str_to_int s' = str_to_int s)"
proof -
  let ?d = "decimal (takeWhile isdigit s)"
  have 1: "parser_parse_unit_expression (Suc n) tree p =
           Some (SUCCESS, ast_num (str_to_int s), parser_get_next_token p)"
    using assms(1-3) by (simp add: parser_parse_unit_expression_def)
  have 2: "str_to_int s = word_of_int (min LONG_MAX ?d)"
    by (simp add: str_to_int_def strtol_digit[OF assms(4,5)])
  have 3: "?d < 2 ^ 31 \<longrightarrow> sint (str_to_int s) = ?d"
  proof
    assume lt: "?d < 2 ^ 31"
    then have m: "min LONG_MAX ?d = ?d" by (simp add: LONG_MAX_def)
    have "sint (word_of_int ?d :: cint) = signed_take_bit 31 ?d" by (simp add: sint_sbintrunc')
    also have "\<dots> = ?d"
      using decimal_nonneg[of s] lt by (intro signed_take_bit_int_eq_self) simp_all
    finally show "sint (str_to_int s) = ?d" by (simp add: 2 m)
  qed
  have 4: "\<forall>s'. takeWhile isdigit s' = takeWhile isdigit s \<longrightarrow> str_to_int s' = str_to_int s"
  proof (intro allI impI)
    fix s' assume e: "takeWhile isdigit s' = takeWhile isdigit s"
    from assms(4,5) have "takeWhile isdigit s \<noteq> []" by (cases s) auto
    with e have "s' \<noteq> []" "isdigit (hd s')" by (cases s'; auto split: if_splits)+
    then show "str_to_int s' = str_to_int s"
      by (simp add: str_to_int_def strtol_digit assms(4,5) e)
  qed
  from 1 2 3 4 show ?thesis by blast
qed

theorem number_value_witness:
  "parser_parse_unit_expression 1 NULL
      \<lparr>parser_next_token = [], parser_active_token = Some (number_token (''3'' @ [CHR 0x0A]))\<rparr>
     = Some (SUCCESS, ast_num 3,
         \<lparr>parser_next_token = [], parser_active_token = Some (number_token (''3'' @ [CHR 0x0A]))\<rparr>)
   \<and> decimal (takeWhile isdigit (''3'' @ [CHR 0x0A])) = 3
   \<and> str_to_int (''3'' @ [CHR 0x0A]) = str_to_int ''3''"
proof -
  let ?s = "''3'' @ [CHR 0x0A]"
  let ?p = "\<lparr>parser_next_token = [], parser_active_token = Some (number_token ?s)\<rparr>"
  have d: "decimal (takeWhile isdigit ?s) = 3" "takeWhile isdigit ''3'' = takeWhile isdigit ?s"
    by (simp_all add: decimal_def isdigit_def digit_value_def)
  have h: "parser_active_token ?p = Some (number_token ?s)" "type (number_token ?s) = token_number"
    "lexeme (number_token ?s) = Some ?s" "?s \<noteq> []" "isdigit (hd ?s)"
    by (simp_all add: number_token_def token_new_def isdigit_def)
  note nv = number_value[OF h, of 0 NULL]
  from nv[THEN conjunct1]
  have 1: "parser_parse_unit_expression 1 NULL ?p = Some (SUCCESS, ast_num (str_to_int ?s), ?p)"
    by (simp add: parser_get_next_token_def)
  from nv[THEN conjunct2, THEN conjunct2, THEN conjunct1] d(1)
  have 2: "sint (str_to_int ?s) = 3" by simp
  then have "word_of_int (sint (str_to_int ?s)) = (word_of_int 3 :: cint)" by simp
  then have 3: "str_to_int ?s = 3" by simp
  from nv[THEN conjunct2, THEN conjunct2, THEN conjunct2, rule_format, of "''3''"] d(2)
  have 4: "str_to_int ?s = str_to_int ''3''" by simp
  from 1 3 4 d(1) show ?thesis by simp
qed

text \<open>
  The claim as written fails for the lexeme \<open>2147483648\<close>: the leaf holds \<open>INT_MIN\<close>, not
  the base-10 value of the digits.
\<close>

theorem number_value_counterexample:
  "parser_parse_unit_expression 1 NULL
      \<lparr>parser_next_token = [], parser_active_token = Some (number_token ''2147483648'')\<rparr>
     = Some (SUCCESS, ast_num INT_MIN,
         \<lparr>parser_next_token = [], parser_active_token = Some (number_token ''2147483648'')\<rparr>)
   \<and> sint INT_MIN = - 2147483648
   \<and> decimal (takeWhile isdigit ''2147483648'') = 2147483648
   \<and> first_round 30 (''2147483648'' @ [CHR 0x0A]) = Some (SUCCESS, Some INT_MIN)"
proof -
  have 1: "parser_parse_unit_expression 1 NULL
      \<lparr>parser_next_token = [], parser_active_token = Some (number_token ''2147483648'')\<rparr>
     = Some (SUCCESS, ast_num INT_MIN,
         \<lparr>parser_next_token = [], parser_active_token = Some (number_token ''2147483648'')\<rparr>)"
    by code_simp
  have 2: "sint INT_MIN = - 2147483648" by (simp add: INT_MIN_def)
  have 3: "decimal (takeWhile isdigit ''2147483648'') = 2147483648"
    by (simp add: decimal_def isdigit_def digit_value_def)
  have 4: "first_round 30 (''2147483648'' @ [CHR 0x0A]) = Some (SUCCESS, Some INT_MIN)"
    by code_simp
  from 1 2 3 4 show ?thesis by simp
qed

text \<open>
  Claim C5 at the line \<open>12+3\<close>: the second number token's lexeme is \<open>3\<close> followed by the
  newline, two bytes, because \<open>lexeme_length\<close> still holds the 2 of the first number; the
  maximal digit run at that place is \<open>3\<close>.
\<close>

theorem lexeme_length_carried_over:
  "tokenize_source_line_and_add_to_list [] (line_read (''12+3'' @ [CHR 0x0A])) =
     (SUCCESS, [number_token ''12'', operator_token token_plus, number_token (''3'' @ [CHR 0x0A]),
                operator_token token_end_of_expression])
   \<and> takeWhile isdigit (drop 3 (''12+3'' @ [CHR 0x0A])) = ''3''"
  by code_simp

text \<open>
  Claim C8 at the line \<open>12345 & 123456\<close>: the snippet shows five bytes ahead of the \<open>&\<close>
  and four behind it, and the marker line has five tildes on either side of the caret.
\<close>

theorem snippet_off_by_one:
  "fst (tokenize_source_line_and_add_to_list [] (line_read (''12345 & 123456'' @ [CHR 0x0A]))) =
     FAILURE (''Unexpected character.'' @ [CHR 0x0A, CHR 0x09] @
              ''2345 '' @ [CHR 0x1B] @ ''[1;31m&'' @ [CHR 0x1B] @ ''[0m'' @ '' 123'' @ [CHR 0x0A, CHR 0x09] @
              ''~~~~~^~~~~~'' @ [CHR 0x0A])"
  by code_simp

text \<open>
  In general the marker line has one tilde for each byte from \<open>snippet_start\<close> up to the
  fault and one for each byte behind it up to \<open>snippet_end\<close> inclusive, while the snippet
  shows the bytes behind the fault up to \<open>snippet_end\<close> exclusive.
\<close>

lemma marker_line:
  assumes "i < n"
  shows "map (\<lambda>j. if j \<noteq> i then CHR ''~'' else CHR ''^'') [snippet_start i ..< Suc (snippet_end n i)] =
         replicate (i - snippet_start i) (CHR ''~'') @ [CHR ''^''] @ replicate (snippet_end n i - i) (CHR ''~'')"
proof -
  have le: "snippet_start i \<le> i" "i \<le> snippet_end n i"
    using assms by (auto simp: snippet_start_def snippet_end_def)
  then have "[snippet_start i ..< Suc (snippet_end n i)] =
     [snippet_start i ..< i] @ [i] @ [Suc i ..< Suc (snippet_end n i)]"
  proof -
    obtain k where k: "Suc (snippet_end n i) = i + Suc k"
      using le(2) by (metis add_Suc_right le_Suc_ex)
    have "[snippet_start i ..< i + Suc k] = [snippet_start i ..< i] @ [i ..< i + Suc k]"
      using le(1) by (rule upt_add_eq_append)
    also have "[i ..< i + Suc k] = i # [Suc i ..< i + Suc k]"
      by (simp add: upt_conv_Cons)
    finally show ?thesis by (simp add: k)
  qed
  moreover have "map (\<lambda>j. if j \<noteq> i then CHR ''~'' else CHR ''^'') [snippet_start i ..< i]
     = replicate (i - snippet_start i) (CHR ''~'')"
    by (auto intro!: replicate_eqI)
  moreover have "map (\<lambda>j. if j \<noteq> i then CHR ''~'' else CHR ''^'') [Suc i ..< Suc (snippet_end n i)]
     = replicate (snippet_end n i - i) (CHR ''~'')"
    by (auto intro!: replicate_eqI)
  ultimately show ?thesis by simp
qed

end
